theory Spec2Isabelle
  imports Main
begin

text \<open>
  A model of \<open>Content.js\<close>, the content script of the YouTube spoiler hider: the matcher
  \<open>containsSpoiler\<close>, the annotator \<open>processVideoElement\<close>, the scan
  \<open>processAllVideoElements\<close> and the callback of the mutation observer, over a model of
  the part of the DOM that the script touches. The definitions come first, then lemmas about
  them, then the claims of the specification, each with its theorem.
\<close>

section \<open>Strings\<close>

text \<open>
  A JavaScript string is a sequence of code units. The model has the code units 0 .. 255
  (Basic Latin and Latin-1), one \<^typ>\<open>char\<close> each; code units above 255 are outside the
  model. On these code units \<open>String.prototype.toLowerCase\<close> works unit by unit: the capital
  letters, which are the code units 65 .. 90 (\<open>A\<close> .. \<open>Z\<close>) and 192 .. 222 (U+00C0 .. U+00DE)
  without the multiplication sign 215 (U+00D7), go to the code unit 32 above; every other
  code unit is kept.
\<close>

definition isCapital :: "nat \<Rightarrow> bool" where
  "isCapital n \<longleftrightarrow> 65 \<le> n \<and> n \<le> 90 \<or> 192 \<le> n \<and> n \<le> 222 \<and> n \<noteq> 215"

definition toLowerCase_char :: "char \<Rightarrow> char" where
  "toLowerCase_char c =
     (if isCapital (of_char c) then char_of (of_char c + (32 :: nat)) else c)"

definition toLowerCase :: "string \<Rightarrow> string" where
  "toLowerCase s = map toLowerCase_char s"

text \<open>
  \<open>s.includes(sub)\<close>, here \<open>includes_str s sub\<close>: \<open>sub\<close> occurs in \<open>s\<close> at some position,
  searched from position 0. \<open>startsWith s sub\<close> compares \<open>sub\<close> with the code units at the
  front of \<open>s\<close>.
\<close>

fun startsWith :: "string \<Rightarrow> string \<Rightarrow> bool" where
  "startsWith s [] = True"
| "startsWith [] (c # cs) = False"
| "startsWith (x # xs) (c # cs) = (x = c \<and> startsWith xs cs)"

fun includes_str :: "string \<Rightarrow> string \<Rightarrow> bool" where
  "includes_str [] sub = (sub = [])"
| "includes_str (x # xs) sub = (startsWith (x # xs) sub \<or> includes_str xs sub)"

text \<open>\<open>Array.prototype.some\<close>: the callback holds for an element, tried in order.\<close>

fun some :: "('a \<Rightarrow> bool) \<Rightarrow> 'a list \<Rightarrow> bool" where
  "some f [] = False"
| "some f (x # xs) = (f x \<or> some f xs)"

section \<open>The matcher\<close>

text \<open>
  \<open>containsSpoiler\<close> of \<open>Content.js\<close>. The global array \<open>spoilerKeywords\<close> (loaded from
  \<open>keywords.js\<close>, which is not part of the sources) is the first argument.
\<close>

definition containsSpoiler :: "string list \<Rightarrow> string \<Rightarrow> bool" where
  "containsSpoiler spoilerKeywords text =
     (let lowerCaseText = toLowerCase text
      in some (\<lambda>keyword. includes_str lowerCaseText (toLowerCase keyword)) spoilerKeywords)"

text \<open>
  The same function on arbitrary JavaScript values, to say where it can raise: the call
  \<open>v.toLowerCase()\<close> raises a \<open>TypeError\<close> when \<open>v\<close> is not a string. The text is lower-cased
  first; \<open>some\<close> then runs the callback on the keywords in order and stops at the first one
  for which it is true.
\<close>

datatype jsvalue = JString string | JNumber int | JNull | JUndefined





text \<open>
  The matcher as the specification words it, without reference to \<open>toLowerCase\<close>. The
  letters that have two cases are listed, capital and small in the same order. Two code
  units are the same letter when they are equal or are the capital and the small form of
  one letter. A keyword is a case-insensitive substring of a text when some contiguous piece
  of the text spells the keyword, code unit by code unit, up to the case of the letters.
\<close>

definition capitalLetters :: string where
  "capitalLetters =
     ''ABCDEFGHIJKLMNOPQRSTUVWXYZ'' @
     [CHR 0xC0, CHR 0xC1, CHR 0xC2, CHR 0xC3, CHR 0xC4, CHR 0xC5, CHR 0xC6, CHR 0xC7,
      CHR 0xC8, CHR 0xC9, CHR 0xCA, CHR 0xCB, CHR 0xCC, CHR 0xCD, CHR 0xCE, CHR 0xCF,
      CHR 0xD0, CHR 0xD1, CHR 0xD2, CHR 0xD3, CHR 0xD4, CHR 0xD5, CHR 0xD6,
      CHR 0xD8, CHR 0xD9, CHR 0xDA, CHR 0xDB, CHR 0xDC, CHR 0xDD, CHR 0xDE]"

definition smallLetters :: string where
  "smallLetters =
     ''abcdefghijklmnopqrstuvwxyz'' @
     [CHR 0xE0, CHR 0xE1, CHR 0xE2, CHR 0xE3, CHR 0xE4, CHR 0xE5, CHR 0xE6, CHR 0xE7,
      CHR 0xE8, CHR 0xE9, CHR 0xEA, CHR 0xEB, CHR 0xEC, CHR 0xED, CHR 0xEE, CHR 0xEF,
      CHR 0xF0, CHR 0xF1, CHR 0xF2, CHR 0xF3, CHR 0xF4, CHR 0xF5, CHR 0xF6,
      CHR 0xF8, CHR 0xF9, CHR 0xFA, CHR 0xFB, CHR 0xFC, CHR 0xFD, CHR 0xFE]"

definition sameLetter :: "char \<Rightarrow> char \<Rightarrow> bool" where
  "sameLetter c d \<longleftrightarrow>
     c = d \<or> (c, d) \<in> set (zip capitalLetters smallLetters)
           \<or> (d, c) \<in> set (zip capitalLetters smallLetters)"

definition caseInsensitiveSubstring :: "string \<Rightarrow> string \<Rightarrow> bool" where
  "caseInsensitiveSubstring keyword text =
     (\<exists>before piece after. text = before @ piece @ after \<and> list_all2 sameLetter piece keyword)"

section \<open>The document tree\<close>

text \<open>
  The part of the DOM that \<open>Content.js\<close> reads and writes. An element carries its tag name,
  its \<open>id\<close>, its class list, its inline style (property name and value) and the value of
  \<open>position\<close> that the page's style sheets give it; a text node carries its data.

  A node is addressed by its path from the root element: the list of child indices to
  follow. The script keeps references to nodes while it changes the tree (the static list
  that \<open>querySelectorAll\<close> returns is walked while \<open>textContent\<close> is being assigned), so a
  path has to keep denoting the same node. Therefore a node that is removed from its parent
  stays in its slot with \<open>attached = False\<close>: it is no longer a child of that parent, it has
  no parent and no ancestors, and it keeps its own subtree, as a removed node does in the
  DOM. New children are added after the last slot.
\<close>

record attributes =
  tagName :: string
  ident :: string
  classList :: "string list"
  style :: "(string \<times> string) list"
  sheetPosition :: string

datatype node =
    Text (attached: bool) (data: string)
  | Element (attached: bool) (attrs: attributes) (childSlots: "node list")

type_synonym path = "nat list"

fun nodeAt :: "node \<Rightarrow> path \<Rightarrow> node option" where
  "nodeAt n [] = Some n"
| "nodeAt (Text a s) (k # p) = None"
| "nodeAt (Element a at ks) (k # p) = (if k < length ks then nodeAt (ks ! k) p else None)"

fun modifyAt :: "path \<Rightarrow> (node \<Rightarrow> node) \<Rightarrow> node \<Rightarrow> node" where
  "modifyAt [] f n = f n"
| "modifyAt (k # p) f (Text a s) = Text a s"
| "modifyAt (k # p) f (Element a at ks) =
     Element a at (if k < length ks then ks[k := modifyAt p f (ks ! k)] else ks)"

text \<open>
  The descendants of a node in tree order (a node before its children, children from first
  to last), as paths relative to the node. Removed slots and what is below them are not
  descendants.
\<close>

primrec descendants :: "node \<Rightarrow> path list"
  and descendants_from :: "node list \<Rightarrow> nat \<Rightarrow> path list" where
  "descendants (Text a s) = []"
| "descendants (Element a at ks) = descendants_from ks 0"
| "descendants_from [] k = []"
| "descendants_from (n # ns) k =
     (if attached n then [k] # map ((#) k) (descendants n) else []) @ descendants_from ns (Suc k)"

text \<open>
  The ancestors of the node at a path, nearest first. The chain ends at a removed slot.
\<close>

fun ancestorsAt :: "node list \<Rightarrow> node \<Rightarrow> path \<Rightarrow> node list" where
  "ancestorsAt acc n [] = acc"
| "ancestorsAt acc n (k # p) =
     (case nodeAt n [k] of
        None \<Rightarrow> []
      | Some c \<Rightarrow> ancestorsAt (if attached c then n # acc else []) c p)"

subsection \<open>Selectors\<close>

text \<open>
  The selectors of \<open>Content.js\<close> are lists (the comma) of an id, class or type selector, or
  of two of them joined by the descendant combinator.
\<close>

datatype simple_selector = ById string | ByClass string | ByTag string

datatype selector = Simple simple_selector | Descendant simple_selector simple_selector

fun matches_simple :: "node \<Rightarrow> simple_selector \<Rightarrow> bool" where
  "matches_simple (Text a s) x = False"
| "matches_simple (Element a at ks) (ById i) = (ident at = i)"
| "matches_simple (Element a at ks) (ByClass c) = (c \<in> set (classList at))"
| "matches_simple (Element a at ks) (ByTag t) = (tagName at = t)"

fun matches :: "node \<Rightarrow> path \<Rightarrow> selector \<Rightarrow> bool" where
  "matches doc p (Simple x) =
     (case nodeAt doc p of None \<Rightarrow> False | Some n \<Rightarrow> matches_simple n x)"
| "matches doc p (Descendant y x) =
     (case nodeAt doc p of
        None \<Rightarrow> False
      | Some n \<Rightarrow> matches_simple n x \<and> some (\<lambda>m. matches_simple m y) (ancestorsAt [] doc p))"

text \<open>
  \<open>element.querySelectorAll\<close> and \<open>element.querySelector\<close>: the descendants of the element at
  path \<open>p\<close> that match one of the selectors, in tree order, and the first of them.
  \<open>document.querySelectorAll\<close> also considers the root element.
\<close>

definition querySelectorAll :: "node \<Rightarrow> path \<Rightarrow> selector list \<Rightarrow> path list" where
  "querySelectorAll doc p sels =
     (case nodeAt doc p of
        None \<Rightarrow> []
      | Some n \<Rightarrow> filter (\<lambda>q. some (matches doc q) sels) (map ((@) p) (descendants n)))"

definition querySelector :: "node \<Rightarrow> path \<Rightarrow> selector list \<Rightarrow> path option" where
  "querySelector doc p sels =
     (case querySelectorAll doc p sels of [] \<Rightarrow> None | q # qs \<Rightarrow> Some q)"

definition document_querySelectorAll :: "node \<Rightarrow> selector list \<Rightarrow> path list" where
  "document_querySelectorAll doc sels =
     filter (\<lambda>q. some (matches doc q) sels) ([] # descendants doc)"

subsection \<open>Reading and writing nodes\<close>

text \<open>The \<open>textContent\<close> getter: the data of the text nodes below the node, in tree order.\<close>

primrec textContent_node :: "node \<Rightarrow> string"
  and textContent_nodes :: "node list \<Rightarrow> string" where
  "textContent_node (Text a s) = s"
| "textContent_node (Element a at ks) = textContent_nodes ks"
| "textContent_nodes [] = []"
| "textContent_nodes (n # ns) =
     (if attached n then textContent_node n else []) @ textContent_nodes ns"

definition textContent :: "node \<Rightarrow> path \<Rightarrow> string" where
  "textContent doc p = (case nodeAt doc p of None \<Rightarrow> [] | Some n \<Rightarrow> textContent_node n)"

fun detach :: "node \<Rightarrow> node" where
  "detach (Text a s) = Text False s"
| "detach (Element a at ks) = Element False at ks"

fun attach :: "node \<Rightarrow> node" where
  "attach (Text a s) = Text True s"
| "attach (Element a at ks) = Element True at ks"

text \<open>
  The \<open>textContent\<close> setter on an element removes all its children and, for a non-empty
  string, adds one new text node. On a text node it replaces the data.
\<close>

fun set_textContent_node :: "string \<Rightarrow> node \<Rightarrow> node" where
  "set_textContent_node s (Text a t) = Text a s"
| "set_textContent_node s (Element a at ks) =
     Element a at (map detach ks @ (if s = [] then [] else [Text True s]))"

definition set_textContent :: "path \<Rightarrow> string \<Rightarrow> node \<Rightarrow> node" where
  "set_textContent p s doc = modifyAt p (set_textContent_node s) doc"

fun appendChild_node :: "node \<Rightarrow> node \<Rightarrow> node" where
  "appendChild_node child (Text a s) = Text a s"
| "appendChild_node child (Element a at ks) = Element a at (ks @ [attach child])"

definition appendChild :: "path \<Rightarrow> node \<Rightarrow> node \<Rightarrow> node" where
  "appendChild p child doc = modifyAt p (appendChild_node child) doc"

text \<open>\<open>document.createElement\<close>: a new element without parent, attributes or children.\<close>

definition createElement :: "string \<Rightarrow> node" where
  "createElement t =
     Element False \<lparr>tagName = t, ident = [], classList = [], style = [],
       sheetPosition = ''static''\<rparr> []"

fun classList_add :: "string \<Rightarrow> node \<Rightarrow> node" where
  "classList_add c (Text a s) = Text a s"
| "classList_add c (Element a at ks) =
     Element a (at\<lparr>classList := (if c \<in> set (classList at) then classList at
                                  else classList at @ [c])\<rparr>) ks"

text \<open>Assigning one property of \<open>element.style\<close>, and several with \<open>Object.assign\<close>.\<close>

fun setProperty :: "string \<Rightarrow> string \<Rightarrow> (string \<times> string) list \<Rightarrow> (string \<times> string) list" where
  "setProperty k v [] = [(k, v)]"
| "setProperty k v ((k', v') # rest) =
     (if k' = k then (k, v) # rest else (k', v') # setProperty k v rest)"

fun style_assign :: "(string \<times> string) list \<Rightarrow> node \<Rightarrow> node" where
  "style_assign props (Text a s) = Text a s"
| "style_assign props (Element a at ks) =
     Element a (at\<lparr>style := fold (\<lambda>(k, v). setProperty k v) props (style at)\<rparr>) ks"

text \<open>
  \<open>window.getComputedStyle(element).position\<close>: the inline style wins over the style sheets.
\<close>

fun computedPosition_node :: "node \<Rightarrow> string" where
  "computedPosition_node (Text a s) = []"
| "computedPosition_node (Element a at ks) =
     (case map_of (style at) ''position'' of None \<Rightarrow> sheetPosition at | Some v \<Rightarrow> v)"

definition computedPosition :: "node \<Rightarrow> path \<Rightarrow> string" where
  "computedPosition doc p =
     (case nodeAt doc p of None \<Rightarrow> [] | Some n \<Rightarrow> computedPosition_node n)"

section \<open>The annotator\<close>

text \<open>
  The state is the document and the list of events so far. An event is a line written by
  \<open>console.log\<close>, or the entry into \<open>containsSpoiler\<close> (with its argument) or into
  \<open>processAllVideoElements\<close>: the calls are recorded so that it can be said how often, and
  on which text, a function is called.
\<close>

datatype event =
    ConsoleLog string
  | Call_containsSpoiler string
  | Call_processAllVideoElements

record page =
  dom :: node
  events :: "event list"

definition emit :: "event \<Rightarrow> page \<Rightarrow> page" where
  "emit e s = s\<lparr>events := events s @ [e]\<rparr>"

text \<open>
  Read from the events: the texts \<open>containsSpoiler\<close> was called on, in order, and the number
  of entries into \<open>processAllVideoElements\<close>.
\<close>

fun matcherCalls :: "event list \<Rightarrow> string list" where
  "matcherCalls [] = []"
| "matcherCalls (Call_containsSpoiler t # es) = t # matcherCalls es"
| "matcherCalls (e # es) = matcherCalls es"

fun scanCalls :: "event list \<Rightarrow> nat" where
  "scanCalls [] = 0"
| "scanCalls (Call_processAllVideoElements # es) = Suc (scanCalls es)"
| "scanCalls (e # es) = scanCalls es"

text \<open>
  \<open>processVideoElement\<close> returns nothing in the source. The outcome names the path taken:
  the outer \<open>if\<close> fails (\<open>SkippedNoTitle\<close>), the early \<open>return\<close> (\<open>SkippedAlreadyMasked\<close>),
  \<open>containsSpoiler\<close> is false (\<open>SkippedNoMatch\<close>), \<open>containsSpoiler\<close> is true (\<open>Masked\<close>).
\<close>

datatype outcome = SkippedAlreadyMasked | SkippedNoTitle | SkippedNoMatch | Masked

definition titleSelector :: "selector list" where
  "titleSelector =
     [Simple (ById ''video-title''), Simple (ByClass ''yt-core-attributed-string''),
      Simple (ByClass ''title''),
      Descendant (ByClass ''yt-lockup-metadata-view-model-wiz__title'') (ByTag ''span'')]"

definition overlaySelector :: "selector list" where
  "overlaySelector = [Simple (ByClass ''spoiler-overlay'')]"

definition thumbnailSelector :: "selector list" where
  "thumbnailSelector = [Simple (ByTag ''ytd-thumbnail''), Simple (ByTag ''yt-thumbnail-view-model'')]"

definition sentinel :: string where
  "sentinel = ''Spoiler''"

definition overlayStyle :: "(string \<times> string) list" where
  "overlayStyle =
     [(''position'', ''absolute''), (''top'', ''0''), (''left'', ''0''), (''width'', ''100%''),
      (''height'', ''100%''), (''backgroundColor'', ''black''), (''zIndex'', ''10''),
      (''display'', ''flex''), (''alignItems'', ''center''), (''justifyContent'', ''center''),
      (''color'', ''white''), (''fontSize'', ''1.5em''), (''fontWeight'', ''bold''),
      (''textAlign'', ''center'')]"

definition overlay :: node where
  "overlay =
     set_textContent_node ''SPOILER''
       (style_assign overlayStyle (classList_add ''spoiler-overlay'' (createElement ''div'')))"

definition detectedMessage :: "string \<Rightarrow> string" where
  "detectedMessage originalTitle =
     ''Spoiler detected in title: '' @ [CHR 0x22] @ originalTitle @ [CHR 0x22] @ ''. Hiding...''"

text \<open>
  The body of \<open>if (thumbnailContainer) { ... }\<close>: \<open>insertOverlay\<close> is what runs when no
  overlay is found under the thumbnail container.
\<close>

definition insertOverlay :: "path \<Rightarrow> node \<Rightarrow> node" where
  "insertOverlay thumbnailContainer doc =
     (let doc1 =
            (if computedPosition doc thumbnailContainer = ''static''
             then modifyAt thumbnailContainer (style_assign [(''position'', ''relative'')]) doc
             else doc)
      in appendChild thumbnailContainer overlay doc1)"

definition addOverlay :: "path \<Rightarrow> node \<Rightarrow> node" where
  "addOverlay thumbnailContainer doc =
     (if querySelector doc thumbnailContainer overlaySelector = None
      then insertOverlay thumbnailContainer doc
      else doc)"

definition processVideoElement :: "string list \<Rightarrow> path \<Rightarrow> page \<Rightarrow> outcome \<times> page" where
  "processVideoElement spoilerKeywords videoElement s =
     (case querySelector (dom s) videoElement titleSelector of
        None \<Rightarrow> (SkippedNoTitle, s)
      | Some titleElement \<Rightarrow>
          if textContent (dom s) titleElement = [] then (SkippedNoTitle, s)
          else
            let originalTitle = textContent (dom s) titleElement in
            if textContent (dom s) titleElement = sentinel
               \<and> querySelector (dom s) videoElement overlaySelector \<noteq> None
            then (SkippedAlreadyMasked, s)
            else
              let s1 = emit (Call_containsSpoiler originalTitle) s in
              if containsSpoiler spoilerKeywords originalTitle then
                let s2 = emit (ConsoleLog (detectedMessage originalTitle)) s1;
                    doc1 = set_textContent titleElement sentinel (dom s2)
                in (case querySelector doc1 videoElement thumbnailSelector of
                      None \<Rightarrow> (Masked, s2\<lparr>dom := doc1\<rparr>)
                    | Some thumbnailContainer \<Rightarrow>
                        (Masked, s2\<lparr>dom := addOverlay thumbnailContainer doc1\<rparr>))
              else (SkippedNoMatch, s1))"

section \<open>The reconciler\<close>

definition videoSelectors :: "string list" where
  "videoSelectors =
     [''ytd-video-renderer'', ''ytd-grid-video-renderer'', ''ytd-compact-video-renderer'',
      ''ytd-rich-grid-media'', ''ytd-playlist-video-renderer'', ''ytd-shelf-renderer'',
      ''ytd-watch-next-secondary-results-renderer'', ''yt-lockup-view-model'']"

definition processAllVideoElements :: "string list \<Rightarrow> page \<Rightarrow> page" where
  "processAllVideoElements spoilerKeywords s =
     fold (\<lambda>selector s1.
             fold (\<lambda>videoElement s2. snd (processVideoElement spoilerKeywords videoElement s2))
               (document_querySelectorAll (dom s1) [Simple (ByTag selector)]) s1)
       videoSelectors (emit Call_processAllVideoElements s)"

text \<open>
  A mutation record of the observer, and the observer's callback on a batch of records.
\<close>

record mutation =
  addedNodes :: "node list"
  removedNodes :: "node list"

definition observerCallback :: "string list \<Rightarrow> mutation list \<Rightarrow> page \<Rightarrow> page" where
  "observerCallback spoilerKeywords mutations s =
     (let newContentAdded =
            fold (\<lambda>mutation added. if length (addedNodes mutation) > 0 then True else added)
              mutations False
      in if newContentAdded then
           processAllVideoElements spoilerKeywords
             (emit (ConsoleLog ''New content added. Re-processing all videos...'') s)
         else s)"

text \<open>A sequence of calls of the annotator (on the element at a path) and of the scan.\<close>

datatype call = Annotate path | ScanAll

fun run :: "string list \<Rightarrow> call list \<Rightarrow> page \<Rightarrow> page" where
  "run spoilerKeywords [] s = s"
| "run spoilerKeywords (Annotate videoElement # calls) s =
     run spoilerKeywords calls (snd (processVideoElement spoilerKeywords videoElement s))"
| "run spoilerKeywords (ScanAll # calls) s =
     run spoilerKeywords calls (processAllVideoElements spoilerKeywords s)"

section \<open>Observations on the document\<close>

text \<open>
  \<open>linkedPath n p\<close>: the path \<open>p\<close> leads from \<open>n\<close> down through attached slots only, so
  that for a non-empty \<open>p\<close> the node at \<open>p\<close> is a descendant of \<open>n\<close>.
\<close>

fun linkedPath :: "node \<Rightarrow> path \<Rightarrow> bool" where
  "linkedPath n [] = True"
| "linkedPath (Text a s) (k # p) = False"
| "linkedPath (Element a at ks) (k # p) =
     (k < length ks \<and> attached (ks ! k) \<and> linkedPath (ks ! k) p)"

text \<open>
  The number of overlay elements in the whole structure, removed slots included (nodes are
  never dropped from the structure, so the number grows by one exactly when an overlay is
  inserted), and the number of overlay elements among the children of a node.
\<close>

definition isOverlay :: "node \<Rightarrow> bool" where
  "isOverlay n = matches_simple n (ByClass ''spoiler-overlay'')"

primrec overlayNodes :: "node \<Rightarrow> nat"
  and overlayNodes_list :: "node list \<Rightarrow> nat" where
  "overlayNodes (Text a s) = 0"
| "overlayNodes (Element a at ks) =
     (if ''spoiler-overlay'' \<in> set (classList at) then 1 else 0) + overlayNodes_list ks"
| "overlayNodes_list [] = 0"
| "overlayNodes_list (n # ns) = overlayNodes n + overlayNodes_list ns"

fun overlayChildren :: "node \<Rightarrow> nat" where
  "overlayChildren (Text a s) = 0"
| "overlayChildren (Element a at ks) = length (filter (\<lambda>c. attached c \<and> isOverlay c) ks)"

definition isThumbnail :: "node \<Rightarrow> bool" where
  "isThumbnail n =
     (matches_simple n (ByTag ''ytd-thumbnail'') \<or> matches_simple n (ByTag ''yt-thumbnail-view-model''))"

text \<open>
  \<open>thumbnailsOk n\<close>: every thumbnail element of the structure has at most one overlay among
  its children.
\<close>

primrec thumbnailsOk :: "node \<Rightarrow> bool"
  and thumbnailsOk_list :: "node list \<Rightarrow> bool" where
  "thumbnailsOk (Text a s) = True"
| "thumbnailsOk (Element a at ks) =
     ((isThumbnail (Element a at ks) \<longrightarrow> overlayChildren (Element a at ks) \<le> 1)
      \<and> thumbnailsOk_list ks)"
| "thumbnailsOk_list [] = True"
| "thumbnailsOk_list (n # ns) = (thumbnailsOk n \<and> thumbnailsOk_list ns)"

section \<open>Example documents\<close>

text \<open>
  Small documents on which the definitions are evaluated: a \<open>body\<close> with one video card.
  A card has a title link and, in \<open>videoCard\<close>, a thumbnail before it. In a document
  \<open>body [card]\<close> the card is at path \<open>[0]\<close>.
\<close>

definition elem :: "string \<Rightarrow> string \<Rightarrow> string list \<Rightarrow> node list \<Rightarrow> node" where
  "elem t i cs ks =
     Element True \<lparr>tagName = t, ident = i, classList = cs, style = [],
       sheetPosition = ''static''\<rparr> ks"

definition body :: "node list \<Rightarrow> node" where
  "body ks = elem ''body'' [] [] ks"

definition videoCard :: "string \<Rightarrow> node" where
  "videoCard title =
     elem ''ytd-video-renderer'' [] []
       [elem ''ytd-thumbnail'' [] [] [elem ''img'' [] [] []],
        elem ''a'' ''video-title'' [] [Text True title]]"

definition bareCard :: "string \<Rightarrow> node" where
  "bareCard title =
     elem ''ytd-video-renderer'' [] [] [elem ''a'' ''video-title'' [] [Text True title]]"

definition start :: "node \<Rightarrow> page" where
  "start doc = \<lparr>dom = doc, events = []\<rparr>"

text \<open>
  Two batches of mutation records: one with five added nodes in two records, one with a
  removal only.
\<close>

definition addedBatch :: "mutation list" where
  "addedBatch =
     [\<lparr>addedNodes = [videoCard ''One'', videoCard ''Two''], removedNodes = []\<rparr>,
      \<lparr>addedNodes = [videoCard ''Three'', videoCard ''Four'', videoCard ''Five''],
       removedNodes = [bareCard ''Old'']\<rparr>]"

definition removedBatch :: "mutation list" where
  "removedBatch = [\<lparr>addedNodes = [], removedNodes = [bareCard ''Old'']\<rparr>]"

section \<open>Lemmas\<close>

subsection \<open>The matcher\<close>

lemma startsWith_iff: "startsWith s sub \<longleftrightarrow> (\<exists>rest. s = sub @ rest)"
  by (induction s sub rule: startsWith.induct) auto

lemma includes_iff: "includes_str s sub \<longleftrightarrow> (\<exists>before after. s = before @ sub @ after)"
proof (induction s)
  case Nil
  then show ?case by auto
next
  case (Cons x xs)
  show ?case
  proof
    assume "includes_str (x # xs) sub"
    then consider "startsWith (x # xs) sub" | "includes_str xs sub" by auto
    then show "\<exists>before after. x # xs = before @ sub @ after"
    proof cases
      case 1
      then obtain rest where "x # xs = sub @ rest" by (auto simp: startsWith_iff)
      then have "x # xs = [] @ sub @ rest" by simp
      then show ?thesis by blast
    next
      case 2
      with Cons.IH obtain b a where "xs = b @ sub @ a" by blast
      then have "x # xs = (x # b) @ sub @ a" by simp
      then show ?thesis by blast
    qed
  next
    assume "\<exists>before after. x # xs = before @ sub @ after"
    then obtain b a where ba: "x # xs = b @ sub @ a" by blast
    show "includes_str (x # xs) sub"
    proof (cases b)
      case Nil
      with ba have "startsWith (x # xs) sub" by (auto simp: startsWith_iff)
      then show ?thesis by simp
    next
      case (Cons y ys)
      with ba have "xs = ys @ sub @ a" by simp
      with Cons.IH have "includes_str xs sub" by blast
      then show ?thesis by simp
    qed
  qed
qed

lemma some_iff: "some f xs \<longleftrightarrow> (\<exists>x \<in> set xs. f x)"
  by (induction xs) auto

lemma includes_empty: "includes_str s []"
  by (cases s) simp_all

text \<open>
  Lower-casing a code unit is looking it up among the capital letters: checked on each of
  the 256 code units.
\<close>

lemma toLowerCase_char_letters:
  "\<forall>c. toLowerCase_char c =
     (case map_of (zip capitalLetters smallLetters) c of None \<Rightarrow> c | Some l \<Rightarrow> l)"
  by code_simp

lemma letters_distinct:
  "distinct capitalLetters \<and> distinct smallLetters
   \<and> length capitalLetters = length smallLetters
   \<and> (\<forall>c \<in> set capitalLetters. c \<notin> set smallLetters)"
  by code_simp

text \<open>
  A table of pairs whose left and right entries are distinct and apart: replacing left
  entries by their right entries identifies exactly the members of a pair.
\<close>

lemma table_fold_eq_iff:
  assumes us: "distinct us" and ls: "distinct ls" and len: "length us = length ls"
    and apart: "\<forall>c \<in> set us. c \<notin> set ls"
  shows "(case map_of (zip us ls) c of None \<Rightarrow> c | Some l \<Rightarrow> l)
         = (case map_of (zip us ls) d of None \<Rightarrow> d | Some l \<Rightarrow> l)
     \<longleftrightarrow> c = d \<or> (c, d) \<in> set (zip us ls) \<or> (d, c) \<in> set (zip us ls)"
proof -
  define t where "t = zip us ls"
  define f where "f x = (case map_of t x of None \<Rightarrow> x | Some l \<Rightarrow> l)" for x
  have keys: "distinct (map fst t)"
    using us len by (simp add: t_def)
  have left: "x \<in> set us" and right: "y \<in> set ls" if "(x, y) \<in> set t" for x y
    using that unfolding t_def by (auto dest: set_zip_leftD set_zip_rightD)
  have pair: "f x = y" if "(x, y) \<in> set t" for x y
  proof -
    from keys that have "map_of t x = Some y" by (rule map_of_is_SomeI)
    then show ?thesis by (simp add: f_def)
  qed
  have other: "f x = x" if "x \<notin> set us" for x
  proof -
    have "x \<notin> fst ` set t" using that left by force
    then have "map_of t x = None" by (simp add: map_of_eq_None_iff)
    then show ?thesis by (simp add: f_def)
  qed
  have has: "\<exists>y. (x, y) \<in> set t" if "x \<in> set us" for x
  proof -
    from that obtain i where i: "i < length us" "us ! i = x" by (auto simp: in_set_conv_nth)
    with len have "(x, ls ! i) \<in> set (zip us ls)"
      by (auto simp: set_zip)
    then show ?thesis by (auto simp: t_def)
  qed
  have inj: "x = x'" if "(x, y) \<in> set t" "(x', y) \<in> set t" for x x' y
  proof -
    from that obtain i j where i: "i < length us" "i < length ls" "us ! i = x" "ls ! i = y"
      and j: "j < length us" "j < length ls" "us ! j = x'" "ls ! j = y"
      unfolding t_def by (auto simp: set_zip)
    from i j have "ls ! i = ls ! j" by simp
    with ls i(2) j(2) have "i = j" by (simp add: nth_eq_iff_index_eq)
    with i j show ?thesis by simp
  qed
  have small: "y \<notin> set us" if "(x, y) \<in> set t" for x y
    using right [OF that] apart by blast
  have "f c = f d \<longleftrightarrow> c = d \<or> (c, d) \<in> set t \<or> (d, c) \<in> set t"
  proof (cases "c \<in> set us")
    case cu: True
    then obtain k where k: "(c, k) \<in> set t" using has by blast
    then have fc: "f c = k" by (rule pair)
    show ?thesis
    proof (cases "d \<in> set us")
      case True
      then obtain l where l: "(d, l) \<in> set t" using has by blast
      then have fd: "f d = l" by (rule pair)
      have "(c, d) \<notin> set t" using small True by blast
      moreover have "(d, c) \<notin> set t" using small cu by blast
      moreover have "k = l \<longleftrightarrow> c = d"
      proof
        assume "k = l"
        with k l show "c = d" using inj by blast
      next
        assume "c = d"
        with fc fd show "k = l" by simp
      qed
      ultimately show ?thesis using fc fd by simp
    next
      case False
      then have fd: "f d = d" by (rule other)
      have "(d, c) \<notin> set t" using left False by blast
      moreover have "c \<noteq> d" using cu False by blast
      moreover have "(c, d) \<in> set t \<longleftrightarrow> k = d"
      proof
        assume "(c, d) \<in> set t"
        then have "f c = d" by (rule pair)
        with fc show "k = d" by simp
      next
        assume "k = d"
        with k show "(c, d) \<in> set t" by simp
      qed
      ultimately show ?thesis using fc fd by simp
    qed
  next
    case cu: False
    then have fc: "f c = c" by (rule other)
    have nc: "(c, d) \<notin> set t" using left cu by blast
    show ?thesis
    proof (cases "d \<in> set us")
      case True
      then obtain l where l: "(d, l) \<in> set t" using has by blast
      then have fd: "f d = l" by (rule pair)
      have "c \<noteq> d" using cu True by blast
      moreover have "(d, c) \<in> set t \<longleftrightarrow> c = l"
      proof
        assume "(d, c) \<in> set t"
        then have "f d = c" by (rule pair)
        with fd show "c = l" by simp
      next
        assume "c = l"
        with l show "(d, c) \<in> set t" by simp
      qed
      ultimately show ?thesis using fc fd nc by simp
    next
      case False
      then have fd: "f d = d" by (rule other)
      have "(d, c) \<notin> set t" using left False by blast
      with nc fc fd show ?thesis by simp
    qed
  qed
  then show ?thesis by (simp add: f_def t_def)
qed

lemma toLowerCase_char_eq_iff: "toLowerCase_char c = toLowerCase_char d \<longleftrightarrow> sameLetter c d"
proof -
  from letters_distinct have "distinct capitalLetters" "distinct smallLetters"
    "length capitalLetters = length smallLetters"
    "\<forall>c \<in> set capitalLetters. c \<notin> set smallLetters"
    by blast+
  from table_fold_eq_iff [OF this, of c d] toLowerCase_char_letters
  show ?thesis by (simp add: sameLetter_def)
qed

lemma toLowerCase_eq_iff: "toLowerCase piece = toLowerCase keyword \<longleftrightarrow> list_all2 sameLetter piece keyword"
proof -
  have "toLowerCase piece = toLowerCase keyword
      \<longleftrightarrow> list_all2 (=) (map toLowerCase_char piece) (map toLowerCase_char keyword)"
    by (simp add: toLowerCase_def list.rel_eq)
  also have "\<dots> \<longleftrightarrow> list_all2 (\<lambda>c d. toLowerCase_char c = toLowerCase_char d) piece keyword"
    by (simp add: list_all2_map1 list_all2_map2)
  finally show ?thesis by (simp add: toLowerCase_char_eq_iff)
qed

lemma toLowerCase_append: "toLowerCase (xs @ ys) = toLowerCase xs @ toLowerCase ys"
  by (simp add: toLowerCase_def)

lemma lowered_substring_iff:
  "(\<exists>before after. toLowerCase text = before @ toLowerCase keyword @ after)
     \<longleftrightarrow> caseInsensitiveSubstring keyword text"
proof
  assume "\<exists>before after. toLowerCase text = before @ toLowerCase keyword @ after"
  then obtain b a where "map toLowerCase_char text = b @ map toLowerCase_char keyword @ a"
    by (auto simp: toLowerCase_def)
  then have "\<exists>before rest. text = before @ rest
      \<and> map toLowerCase_char keyword @ a = map toLowerCase_char rest"
    unfolding map_eq_append_conv by blast
  then obtain before rest where 1: "text = before @ rest"
    and 2: "map toLowerCase_char keyword @ a = map toLowerCase_char rest"
    by blast
  from 2 have "\<exists>piece after. rest = piece @ after
      \<and> map toLowerCase_char keyword = map toLowerCase_char piece"
    unfolding append_eq_map_conv by blast
  then obtain piece after where 3: "rest = piece @ after"
    and 4: "map toLowerCase_char piece = map toLowerCase_char keyword"
    by auto
  from 4 have "list_all2 sameLetter piece keyword"
    by (simp add: toLowerCase_eq_iff [symmetric] toLowerCase_def)
  with 1 3 show "caseInsensitiveSubstring keyword text"
    unfolding caseInsensitiveSubstring_def by blast
next
  assume "caseInsensitiveSubstring keyword text"
  then obtain before piece after where "text = before @ piece @ after"
    and "list_all2 sameLetter piece keyword"
    unfolding caseInsensitiveSubstring_def by blast
  then have "toLowerCase text = toLowerCase before @ toLowerCase keyword @ toLowerCase after"
    by (simp add: toLowerCase_append toLowerCase_eq_iff)
  then show "\<exists>before after. toLowerCase text = before @ toLowerCase keyword @ after"
    by blast
qed

lemma containsSpoiler_iff:
  "containsSpoiler spoilerKeywords text \<longleftrightarrow>
     (\<exists>keyword \<in> set spoilerKeywords. caseInsensitiveSubstring keyword text)"
  by (simp add: containsSpoiler_def some_iff includes_iff lowered_substring_iff)



lemma matcherCalls_append: "matcherCalls (es @ fs) = matcherCalls es @ matcherCalls fs"
  by (induction es rule: matcherCalls.induct) simp_all

lemma scanCalls_append: "scanCalls (es @ fs) = scanCalls es + scanCalls fs"
  by (induction es rule: scanCalls.induct) simp_all

subsection \<open>Descendants as linked paths\<close>

lemma descendants_from_iff:
  assumes "\<And>n q. n \<in> set ks \<Longrightarrow> (q \<in> set (descendants n) \<longleftrightarrow> q \<noteq> [] \<and> linkedPath n q)"
  shows "q \<in> set (descendants_from ks k0) \<longleftrightarrow>
      (\<exists>i q'. q = (k0 + i) # q' \<and> i < length ks \<and> attached (ks ! i) \<and> linkedPath (ks ! i) q')"
  using assms
proof (induction ks arbitrary: k0)
  case Nil
  then show ?case by simp
next
  case (Cons n ns)
  let ?A = "\<exists>q'. q = k0 # q' \<and> attached n \<and> linkedPath n q'"
  let ?B = "\<exists>i q'. q = (Suc k0 + i) # q' \<and> i < length ns \<and> attached (ns ! i)
                 \<and> linkedPath (ns ! i) q'"
  let ?L = "\<exists>i q'. q = (k0 + i) # q' \<and> i < length (n # ns) \<and> attached ((n # ns) ! i)
           \<and> linkedPath ((n # ns) ! i) q'"
  have "?L \<longleftrightarrow> ?A \<or> ?B"
  proof
    assume ?L
    then obtain i q' where h: "q = (k0 + i) # q'" "i < length (n # ns)"
      "attached ((n # ns) ! i)" "linkedPath ((n # ns) ! i) q'" by blast
    show "?A \<or> ?B"
    proof (cases i)
      case 0
      with h show ?thesis by simp
    next
      case (Suc j)
      with h have "q = (Suc k0 + j) # q' \<and> j < length ns \<and> attached (ns ! j)
                 \<and> linkedPath (ns ! j) q'" by simp
      then show ?thesis by blast
    qed
  next
    assume "?A \<or> ?B"
    then show ?L
    proof
      assume ?A
      then obtain q' where "q = (k0 + 0) # q'" "0 < length (n # ns)" "attached ((n # ns) ! 0)"
        "linkedPath ((n # ns) ! 0) q'" by auto
      then show ?L by blast
    next
      assume ?B
      then obtain j q' where "q = (k0 + Suc j) # q'" "Suc j < length (n # ns)"
        "attached ((n # ns) ! Suc j)" "linkedPath ((n # ns) ! Suc j) q'" by auto
      then show ?L by blast
    qed
  qed
  moreover have "q \<in> set (descendants_from ns (Suc k0)) \<longleftrightarrow> ?B"
    using Cons.IH [of "Suc k0"] Cons.prems by simp
  moreover have "\<And>q'. q' \<in> set (descendants n) \<longleftrightarrow> q' \<noteq> [] \<and> linkedPath n q'"
    using Cons.prems by simp
  then have d: "set (descendants n) = {q'. q' \<noteq> [] \<and> linkedPath n q'}"
    by blast
  have "q \<in> set ((if attached n then [k0] # map ((#) k0) (descendants n) else [])) \<longleftrightarrow> ?A"
  proof (cases "attached n")
    case False
    then show ?thesis by simp
  next
    case True
    have "q = [k0] \<or> q \<in> (#) k0 ` {q'. q' \<noteq> [] \<and> linkedPath n q'}
        \<longleftrightarrow> (\<exists>q'. q = k0 # q' \<and> linkedPath n q')"
      (is "?X \<longleftrightarrow> ?Y")
    proof
      assume ?X
      then show ?Y by auto
    next
      assume ?Y
      then obtain q' where q: "q = k0 # q'" "linkedPath n q'" by blast
      show ?X
      proof (cases q')
        case Nil
        with q show ?thesis by simp
      next
        case (Cons a list)
        with q have "q' \<in> {q'. q' \<noteq> [] \<and> linkedPath n q'}" by simp
        with q show ?thesis by blast
      qed
    qed
    with True show ?thesis by (simp add: d)
  qed
  ultimately show ?case by (simp only: descendants.simps descendants_from.simps set_append Un_iff)
qed

lemma descendants_iff: "q \<in> set (descendants n) \<longleftrightarrow> q \<noteq> [] \<and> linkedPath n q"
proof (induction n arbitrary: q)
  case (Text a s)
  then show ?case by (cases q) simp_all
next
  case (Element a at ks)
  have *: "q \<in> set (descendants_from ks 0) \<longleftrightarrow>
      (\<exists>i q'. q = (0 + i) # q' \<and> i < length ks \<and> attached (ks ! i) \<and> linkedPath (ks ! i) q')"
  proof (rule descendants_from_iff)
    fix n q
    assume "n \<in> set ks"
    then show "q \<in> set (descendants n) \<longleftrightarrow> q \<noteq> [] \<and> linkedPath n q"
      by (rule Element.IH)
  qed
  show ?case
  proof (cases q)
    case Nil
    with * show ?thesis by simp
  next
    case (Cons k q')
    have "(\<exists>i q'. q = (0 + i) # q' \<and> i < length ks \<and> attached (ks ! i) \<and> linkedPath (ks ! i) q')
      \<longleftrightarrow> (k < length ks \<and> attached (ks ! k) \<and> linkedPath (ks ! k) q')"
      using Cons by auto
    with * Cons show ?thesis by simp
  qed
qed

subsection \<open>Paths\<close>

lemma nodeAt_append: "nodeAt n p = Some m \<Longrightarrow> nodeAt n (p @ q) = nodeAt m q"
  by (induction n p rule: nodeAt.induct) (auto split: if_splits)

lemma nodeAt_append_None: "nodeAt n p = None \<Longrightarrow> nodeAt n (p @ q) = None"
  by (induction n p rule: nodeAt.induct) (auto split: if_splits)

lemma linkedPath_append:
  "linkedPath n p \<Longrightarrow> nodeAt n p = Some m \<Longrightarrow> linkedPath m q \<Longrightarrow> linkedPath n (p @ q)"
  by (induction n p rule: linkedPath.induct) auto

lemma modifyAt_invalid: "nodeAt n p = None \<Longrightarrow> modifyAt p f n = n"
proof (induction p f n rule: modifyAt.induct)
  case (3 k p f a at ks)
  then show ?case by (auto split: if_splits simp: list_update_same_conv)
qed simp_all

lemma nodeAt_modifyAt_below:
  "nodeAt n v = Some m \<Longrightarrow> nodeAt (modifyAt (v @ r) f n) v = Some (modifyAt r f m)"
proof (induction n v rule: nodeAt.induct)
  case (1 n)
  then show ?case by simp
next
  case (2 a s k p)
  then show ?case by simp
next
  case (3 a at ks k p)
  then show ?case by (auto split: if_splits)
qed

lemma nodeAt_modifyAt_same: "nodeAt n p = Some m \<Longrightarrow> nodeAt (modifyAt p f n) p = Some (f m)"
  using nodeAt_modifyAt_below [of n p m "[]" f] by simp

subsection \<open>Selector queries\<close>

lemma querySelector_None_iff:
  "querySelector doc p sels = None \<longleftrightarrow>
     (\<forall>n q. nodeAt doc p = Some n \<longrightarrow> q \<noteq> [] \<longrightarrow> linkedPath n q \<longrightarrow>
        \<not> some (matches doc (p @ q)) sels)"
proof (cases "nodeAt doc p")
  case None
  then show ?thesis by (simp add: querySelector_def querySelectorAll_def)
next
  case (Some n)
  have "querySelector doc p sels = None \<longleftrightarrow> querySelectorAll doc p sels = []"
    by (simp add: querySelector_def split: list.splits)
  also have "\<dots> \<longleftrightarrow> (\<forall>q \<in> set (descendants n). \<not> some (matches doc (p @ q)) sels)"
    using Some by (simp add: querySelectorAll_def filter_empty_conv)
  also have "\<dots> \<longleftrightarrow> (\<forall>q. q \<noteq> [] \<longrightarrow> linkedPath n q \<longrightarrow> \<not> some (matches doc (p @ q)) sels)"
    unfolding Ball_def descendants_iff by blast
  finally show ?thesis using Some by simp
qed

lemma querySelector_SomeD:
  assumes "querySelector doc p sels = Some t"
  shows "\<exists>n r. nodeAt doc p = Some n \<and> t = p @ r \<and> r \<noteq> [] \<and> linkedPath n r
           \<and> some (matches doc t) sels"
proof -
  from assms obtain n where n: "nodeAt doc p = Some n"
    by (auto simp: querySelector_def querySelectorAll_def split: option.splits)
  from assms n obtain ts where
    "filter (\<lambda>q. some (matches doc q) sels) (map ((@) p) (descendants n)) = t # ts"
    by (auto simp: querySelector_def querySelectorAll_def split: list.splits)
  then have "t \<in> set (filter (\<lambda>q. some (matches doc q) sels) (map ((@) p) (descendants n)))"
    by simp
  then obtain r where "t = p @ r" "r \<in> set (descendants n)" "some (matches doc t) sels"
    by auto
  with n show ?thesis by (auto simp: descendants_iff)
qed

lemma matches_Element:
  "matches doc t sel \<Longrightarrow> \<exists>a at ks. nodeAt doc t = Some (Element a at ks)"
proof (cases sel)
  case (Simple x)
  assume "matches doc t sel"
  with Simple obtain n where "nodeAt doc t = Some n" "matches_simple n x"
    by (auto split: option.splits)
  then show ?thesis by (cases n) auto
next
  case (Descendant y x)
  assume "matches doc t sel"
  with Descendant obtain n where "nodeAt doc t = Some n" "matches_simple n x"
    by (auto split: option.splits)
  then show ?thesis by (cases n) auto
qed

lemma querySelector_Element:
  assumes "querySelector doc p sels = Some t"
  shows "\<exists>a at ks. nodeAt doc t = Some (Element a at ks)"
proof -
  from querySelector_SomeD [OF assms] have "some (matches doc t) sels" by blast
  then obtain sel where "matches doc t sel" by (auto simp: some_iff)
  then show ?thesis by (rule matches_Element)
qed

text \<open>A query below a descendant finds nothing when the query at the element finds nothing.\<close>

lemma querySelector_None_below:
  assumes none: "querySelector doc v sels = None"
    and n: "nodeAt doc v = Some n" and r: "linkedPath n r"
  shows "querySelector doc (v @ r) sels = None"
  unfolding querySelector_None_iff
proof (intro allI impI)
  fix m q
  assume m: "nodeAt doc (v @ r) = Some m" and q: "q \<noteq> []" "linkedPath m q"
  from n m have "nodeAt n r = Some m" by (simp add: nodeAt_append)
  with r q have "linkedPath n (r @ q)" by (simp add: linkedPath_append)
  moreover from q have "r @ q \<noteq> []" by simp
  ultimately have "\<not> some (matches doc (v @ (r @ q))) sels"
    using none n unfolding querySelector_None_iff by blast
  then show "\<not> some (matches doc ((v @ r) @ q)) sels" by simp
qed

subsection \<open>What a modification keeps\<close>

lemma modifyAt_root:
  assumes "\<And>m. attached (f m) = attached m"
    and "\<And>m. matches_simple (f m) x = matches_simple m x"
  shows "attached (modifyAt p f n) = attached n"
    and "matches_simple (modifyAt p f n) x = matches_simple n x"
proof -
  show "attached (modifyAt p f n) = attached n"
    using assms(1) by (cases p; cases n) simp_all
  show "matches_simple (modifyAt p f n) x = matches_simple n x"
    using assms(2) by (cases p; cases n; cases x) simp_all
qed

lemma set_textContent_node_root:
  "attached (set_textContent_node s m) = attached m"
  "matches_simple (set_textContent_node s m) x = matches_simple m x"
  by (cases m; cases x; simp)+

lemma style_assign_root:
  "attached (style_assign props m) = attached m"
  "matches_simple (style_assign props m) x = matches_simple m x"
  by (cases m; cases x; simp)+

lemma appendChild_node_root:
  "attached (appendChild_node c m) = attached m"
  "matches_simple (appendChild_node c m) x = matches_simple m x"
  by (cases m; cases x; simp)+

lemma attached_detach: "attached (detach n) = False"
  by (cases n) simp_all

text \<open>
  After \<open>textContent\<close> is assigned somewhere below a node, every descendant that matches a
  simple selector was a descendant, at the same path, and matched before.
\<close>

lemma set_textContent_descendants:
  assumes "linkedPath (modifyAt r (set_textContent_node s) n) q" and "q \<noteq> []"
    and "nodeAt (modifyAt r (set_textContent_node s) n) q = Some m'"
    and "matches_simple m' x"
  shows "linkedPath n q \<and> (\<exists>m. nodeAt n q = Some m \<and> matches_simple m x)"
  using assms
proof (induction r "set_textContent_node s" n arbitrary: q rule: modifyAt.induct)
  case (1 n)
  from \<open>q \<noteq> []\<close> obtain k q' where q: "q = k # q'" by (cases q) auto
  show ?case
  proof (cases n)
    case (Text a t)
    with 1 q show ?thesis by simp
  next
    case (Element a at ks)
    let ?ks' = "map detach ks @ (if s = [] then [] else [Text True s])"
    from 1 q Element have k: "k < length ?ks'" "attached (?ks' ! k)" "linkedPath (?ks' ! k) q'"
      "nodeAt (?ks' ! k) q' = Some m'"
      by auto
    show ?thesis
    proof (cases "k < length ks")
      case True
      then have "?ks' ! k = detach (ks ! k)" by (simp add: nth_append)
      with k show ?thesis by (simp add: attached_detach)
    next
      case False
      with k have "s \<noteq> []" "k = length ks" by (auto split: if_splits)
      then have t: "?ks' ! k = Text True s" by (simp add: nth_append)
      with k have "q' = []" by (cases q') simp_all
      with k t have "m' = Text True s" by simp
      with \<open>matches_simple m' x\<close> show ?thesis by simp
    qed
  qed
next
  case (2 k p a t)
  then show ?case by (cases q) simp_all
next
  case (3 k p a at ks)
  from \<open>q \<noteq> []\<close> obtain j q' where q: "q = j # q'" by (cases q) auto
  show ?case
  proof (cases "k < length ks")
    case False
    with 3 show ?thesis by auto
  next
    case True
    let ?c' = "modifyAt p (set_textContent_node s) (ks ! k)"
    show ?thesis
    proof (cases "j = k")
      case False
      with 3 True q show ?thesis by auto
    next
      case jk: True
      from 3(2,4) True q jk have l: "attached ?c'" "linkedPath ?c' q'"
        "nodeAt ?c' q' = Some m'"
        by auto
      from l(1) have a: "attached (ks ! k)"
        by (simp add: modifyAt_root(1) set_textContent_node_root)
      show ?thesis
      proof (cases q')
        case Nil
        with l have "m' = ?c'" by simp
        with \<open>matches_simple m' x\<close> have "matches_simple (ks ! k) x"
          by (simp add: modifyAt_root(2) set_textContent_node_root)
        with True q jk a Nil show ?thesis by simp
      next
        case (Cons i q'')
        with 3(1) [OF True l(2) _ l(3) \<open>matches_simple m' x\<close>]
        have "linkedPath (ks ! k) q' \<and> (\<exists>m. nodeAt (ks ! k) q' = Some m \<and> matches_simple m x)"
          by simp
        with True q jk a show ?thesis by simp
      qed
    qed
  qed
qed

lemma simple_matches:
  "matches doc t (Simple x) \<longleftrightarrow> (\<exists>m. nodeAt doc t = Some m \<and> matches_simple m x)"
  by (auto split: option.splits)

text \<open>
  Assigning \<open>textContent\<close> below an element does not make a query with simple selectors
  succeed that found nothing before.
\<close>

lemma querySelector_None_set_textContent:
  assumes none: "querySelector doc v sels = None"
    and simple: "\<forall>sel \<in> set sels. \<exists>x. sel = Simple x"
  shows "querySelector (set_textContent (v @ r) s doc) v sels = None"
proof (cases "nodeAt doc v")
  case None
  then have "nodeAt doc (v @ r) = None" by (rule nodeAt_append_None)
  then have "set_textContent (v @ r) s doc = doc"
    by (simp add: set_textContent_def modifyAt_invalid)
  with none show ?thesis by simp
next
  case (Some n)
  let ?doc' = "set_textContent (v @ r) s doc"
  let ?n' = "modifyAt r (set_textContent_node s) n"
  from Some have n': "nodeAt ?doc' v = Some ?n'"
    by (simp add: set_textContent_def nodeAt_modifyAt_below)
  show ?thesis
    unfolding querySelector_None_iff
  proof (intro allI impI)
    fix m q
    assume m: "nodeAt ?doc' v = Some m" and q: "q \<noteq> []" "linkedPath m q"
    from m n' have mn: "m = ?n'" by simp
    show "\<not> some (matches ?doc' (v @ q)) sels"
    proof
      assume "some (matches ?doc' (v @ q)) sels"
      then obtain sel where sel: "sel \<in> set sels" "matches ?doc' (v @ q) sel"
        by (auto simp: some_iff)
      with simple obtain x where x: "sel = Simple x" by blast
      with sel have "matches ?doc' (v @ q) (Simple x)" by simp
      then obtain m' where m': "nodeAt ?doc' (v @ q) = Some m'" "matches_simple m' x"
        unfolding simple_matches by blast
      from m'(1) n' have "nodeAt ?n' q = Some m'" by (simp add: nodeAt_append)
      with q mn m'(2)
      have "linkedPath n q \<and> (\<exists>m. nodeAt n q = Some m \<and> matches_simple m x)"
        by (intro set_textContent_descendants) simp_all
      then obtain m0 where l: "linkedPath n q" and m0: "nodeAt n q = Some m0"
        "matches_simple m0 x" by blast
      from m0 Some have "\<exists>m. nodeAt doc (v @ q) = Some m \<and> matches_simple m x"
        by (simp add: nodeAt_append)
      then have "matches doc (v @ q) (Simple x)"
        unfolding simple_matches .
      with sel(1) x have "\<exists>sel \<in> set sels. matches doc (v @ q) sel" by blast
      then have "some (matches doc (v @ q)) sels" unfolding some_iff .
      with none Some q l show False unfolding querySelector_None_iff by blast
    qed
  qed
qed

subsection \<open>Text and overlay counts after a modification\<close>

lemma textContent_nodes_append:
  "textContent_nodes (xs @ ys) = textContent_nodes xs @ textContent_nodes ys"
  by (induction xs) simp_all

lemma textContent_nodes_detach: "textContent_nodes (map detach ks) = []"
  by (induction ks) (simp_all add: attached_detach)

lemma textContent_set_textContent:
  assumes "nodeAt doc t = Some (Element a at ks)"
  shows "textContent (set_textContent t s doc) t = s"
  using assms
  by (simp add: textContent_def set_textContent_def nodeAt_modifyAt_same
      textContent_nodes_append textContent_nodes_detach)

lemma overlayNodes_list_append:
  "overlayNodes_list (xs @ ys) = overlayNodes_list xs + overlayNodes_list ys"
  by (induction xs) simp_all

lemma overlayNodes_detach: "overlayNodes (detach n) = overlayNodes n"
  by (cases n) simp_all

lemma overlayNodes_list_detach: "overlayNodes_list (map detach ks) = overlayNodes_list ks"
  by (induction ks) (simp_all add: overlayNodes_detach)

lemma overlayNodes_list_update:
  "k < length ks \<Longrightarrow>
     overlayNodes_list (ks[k := c]) + overlayNodes (ks ! k) = overlayNodes_list ks + overlayNodes c"
proof (induction ks arbitrary: k)
  case Nil
  then show ?case by simp
next
  case (Cons n ns)
  then show ?case by (cases k) auto
qed

lemma overlayNodes_modifyAt:
  "nodeAt n p = Some m \<Longrightarrow>
     overlayNodes (modifyAt p f n) + overlayNodes m = overlayNodes n + overlayNodes (f m)"
proof (induction p f n rule: modifyAt.induct)
  case (1 f n)
  then show ?case by simp
next
  case (2 k p f a s)
  then show ?case by simp
next
  case (3 k p f a at ks)
  then have k: "k < length ks" and m: "nodeAt (ks ! k) p = Some m"
    by (auto split: if_splits)
  from 3(1) [OF k m] overlayNodes_list_update [OF k, of "modifyAt p f (ks ! k)"] k
  show ?case by simp
qed

lemma overlayNodes_set_textContent_node:
  "overlayNodes (set_textContent_node s m) = overlayNodes m"
  by (cases m) (simp_all add: overlayNodes_list_append overlayNodes_list_detach)

lemma overlayNodes_style_assign: "overlayNodes (style_assign props m) = overlayNodes m"
  by (cases m) simp_all

lemma overlayNodes_same:
  assumes "\<And>m. overlayNodes (f m) = overlayNodes m"
  shows "overlayNodes (modifyAt p f n) = overlayNodes n"
proof (cases "nodeAt n p")
  case None
  then show ?thesis by (simp add: modifyAt_invalid)
next
  case (Some m)
  from overlayNodes_modifyAt [OF Some, of f] assms show ?thesis by simp
qed

lemma overlayNodes_set_textContent:
  "overlayNodes (set_textContent t s doc) = overlayNodes doc"
  unfolding set_textContent_def
  by (rule overlayNodes_same) (rule overlayNodes_set_textContent_node)

lemma overlayNodes_overlay: "overlayNodes (attach overlay) = 1"
  by code_simp

lemma overlayNodes_appendChild_node:
  "overlayNodes (appendChild_node c m) \<le> overlayNodes m + overlayNodes (attach c)"
  by (cases m) (simp_all add: overlayNodes_list_append)

lemma overlayNodes_insertOverlay:
  "overlayNodes (insertOverlay t doc) \<le> overlayNodes doc + 1"
proof -
  let ?doc1 = "if computedPosition doc t = ''static''
     then modifyAt t (style_assign [(''position'', ''relative'')]) doc else doc"
  have 1: "overlayNodes ?doc1 = overlayNodes doc"
    by (simp add: overlayNodes_same overlayNodes_style_assign)
  have "overlayNodes (appendChild t overlay ?doc1) \<le> overlayNodes ?doc1 + 1"
  proof (cases "nodeAt ?doc1 t")
    case None
    then show ?thesis by (simp add: appendChild_def modifyAt_invalid)
  next
    case (Some m)
    from overlayNodes_modifyAt [OF Some, of "appendChild_node overlay"]
      overlayNodes_appendChild_node [of overlay m]
    show ?thesis by (simp add: appendChild_def overlayNodes_overlay)
  qed
  with 1 show ?thesis by (simp add: insertOverlay_def Let_def)
qed

lemma simple_thumbnailSelector: "\<forall>sel \<in> set thumbnailSelector. \<exists>x. sel = Simple x"
  by (simp add: thumbnailSelector_def)

lemma simple_overlaySelector: "\<forall>sel \<in> set overlaySelector. \<exists>x. sel = Simple x"
  by (simp add: overlaySelector_def)

subsection \<open>Counting scans\<close>

lemma scanCalls_processVideoElement:
  "scanCalls (events (snd (processVideoElement spoilerKeywords videoElement s)))
     = scanCalls (events s)"
  by (simp add: processVideoElement_def Let_def emit_def scanCalls_append split: option.split)

lemma scanCalls_fold_elements:
  "scanCalls (events (fold (\<lambda>videoElement s2.
       snd (processVideoElement spoilerKeywords videoElement s2)) videoElements s))
     = scanCalls (events s)"
  by (induction videoElements arbitrary: s) (simp_all add: scanCalls_processVideoElement)

lemma scanCalls_fold_selectors:
  "scanCalls (events (fold (\<lambda>selector s1.
       fold (\<lambda>videoElement s2. snd (processVideoElement spoilerKeywords videoElement s2))
         (document_querySelectorAll (dom s1) [Simple (ByTag selector)]) s1) selectors s))
     = scanCalls (events s)"
  by (induction selectors arbitrary: s) (simp_all add: scanCalls_fold_elements)

lemma scanCalls_processAllVideoElements:
  "scanCalls (events (processAllVideoElements spoilerKeywords s)) = scanCalls (events s) + 1"
  by (simp add: processAllVideoElements_def scanCalls_fold_selectors emit_def scanCalls_append)

lemma newContentAdded_fold:
  "fold (\<lambda>mutation added. if length (addedNodes mutation) > 0 then True else added)
     mutations b
   \<longleftrightarrow> b \<or> (\<exists>mutation \<in> set mutations. addedNodes mutation \<noteq> [])"
  by (induction mutations arbitrary: b) auto

subsection \<open>The overlay invariant\<close>

lemma thumbnailsOk_list_nth: "thumbnailsOk_list ks \<Longrightarrow> k < length ks \<Longrightarrow> thumbnailsOk (ks ! k)"
proof (induction ks arbitrary: k)
  case Nil
  then show ?case by simp
next
  case (Cons n ns)
  then show ?case by (cases k) simp_all
qed

lemma thumbnailsOk_list_update:
  "thumbnailsOk_list ks \<Longrightarrow> thumbnailsOk c \<Longrightarrow> thumbnailsOk_list (ks[k := c])"
proof (induction ks arbitrary: k)
  case Nil
  then show ?case by simp
next
  case (Cons n ns)
  then show ?case by (cases k) simp_all
qed

lemma thumbnailsOk_list_append:
  "thumbnailsOk_list (xs @ ys) \<longleftrightarrow> thumbnailsOk_list xs \<and> thumbnailsOk_list ys"
  by (induction xs) simp_all

lemma thumbnailsOk_detach: "thumbnailsOk (detach n) = thumbnailsOk n"
  by (cases n) (simp_all add: isThumbnail_def)

lemma thumbnailsOk_list_detach: "thumbnailsOk_list (map detach ks) = thumbnailsOk_list ks"
  by (induction ks) (simp_all add: thumbnailsOk_detach)

lemma thumbnailsOk_nodeAt: "thumbnailsOk n \<Longrightarrow> nodeAt n p = Some m \<Longrightarrow> thumbnailsOk m"
proof (induction n p rule: nodeAt.induct)
  case (1 n)
  then show ?case by simp
next
  case (2 a s k p)
  then show ?case by simp
next
  case (3 a at ks k p)
  then show ?case by (auto split: if_splits dest: thumbnailsOk_list_nth)
qed

lemma overlay_filter_update:
  assumes "k < length ks" and "attached c = attached (ks ! k)" and "isOverlay c = isOverlay (ks ! k)"
  shows "filter (\<lambda>c. attached c \<and> isOverlay c) (ks[k := c]) = [] \<longleftrightarrow>
           filter (\<lambda>c. attached c \<and> isOverlay c) ks = []"
    and "length (filter (\<lambda>c. attached c \<and> isOverlay c) (ks[k := c]))
           = length (filter (\<lambda>c. attached c \<and> isOverlay c) ks)"
proof -
  show "length (filter (\<lambda>c. attached c \<and> isOverlay c) (ks[k := c]))
           = length (filter (\<lambda>c. attached c \<and> isOverlay c) ks)"
    using assms
  proof (induction ks arbitrary: k)
    case Nil
    then show ?case by simp
  next
    case (Cons n ns)
    then show ?case by (cases k) simp_all
  qed
  then show "filter (\<lambda>c. attached c \<and> isOverlay c) (ks[k := c]) = [] \<longleftrightarrow>
           filter (\<lambda>c. attached c \<and> isOverlay c) ks = []"
    by (metis length_0_conv)
qed

lemma isThumbnail_attrs: "isThumbnail (Element a at ks) = isThumbnail (Element b at ks')"
  by (simp add: isThumbnail_def)

lemma thumbnailsOk_modifyAt:
  assumes "\<And>m. attached (f m) = attached m"
    and "\<And>m x. matches_simple (f m) x = matches_simple m x"
    and "nodeAt n p = Some m" and "thumbnailsOk n" and "thumbnailsOk (f m)"
  shows "thumbnailsOk (modifyAt p f n)"
  using assms
proof (induction p f n rule: modifyAt.induct)
  case (1 f n)
  then show ?case by simp
next
  case (2 k p f a s)
  then show ?case by simp
next
  case (3 k p f a at ks)
  note keep = "3.prems"(1,2)
  from "3.prems"(3) have k: "k < length ks" and m: "nodeAt (ks ! k) p = Some m"
    by (auto split: if_splits)
  let ?c = "modifyAt p f (ks ! k)"
  from "3.prems"(4) have okc: "thumbnailsOk (ks ! k)" and oks: "thumbnailsOk_list ks"
    using k by (simp_all add: thumbnailsOk_list_nth)
  have c: "thumbnailsOk ?c"
    using "3.IH" [OF k keep m okc "3.prems"(5)] .
  have same: "attached ?c = attached (ks ! k)" "isOverlay ?c = isOverlay (ks ! k)"
    using keep by (simp_all add: isOverlay_def modifyAt_root)
  have len: "length (filter (\<lambda>c. attached c \<and> isOverlay c) (ks[k := ?c]))
           = length (filter (\<lambda>c. attached c \<and> isOverlay c) ks)"
    using k same by (rule overlay_filter_update(2))
  from "3.prems"(4) have "isThumbnail (Element a at ks) \<Longrightarrow>
      length (filter (\<lambda>c. attached c \<and> isOverlay c) ks) \<le> 1"
    by simp
  then have "isThumbnail (Element a at (ks[k := ?c])) \<longrightarrow>
      overlayChildren (Element a at (ks[k := ?c])) \<le> 1"
    using len isThumbnail_attrs [of a at "ks[k := ?c]" a ks] by simp
  moreover have "thumbnailsOk_list (ks[k := ?c])"
    using oks c by (rule thumbnailsOk_list_update)
  ultimately show ?case using k by simp
qed

lemma thumbnailsOk_set_textContent_node:
  "thumbnailsOk m \<Longrightarrow> thumbnailsOk (set_textContent_node s m)"
proof (cases m)
  case (Text a t)
  then show ?thesis by simp
next
  case (Element a at ks)
  assume "thumbnailsOk m"
  with Element have "thumbnailsOk_list ks" by simp
  moreover have "filter (\<lambda>c. attached c \<and> isOverlay c)
      (map detach ks @ (if s = [] then [] else [Text True s])) = []"
    by (auto simp: filter_empty_conv attached_detach isOverlay_def)
  ultimately show ?thesis using Element
    by (simp add: thumbnailsOk_list_append thumbnailsOk_list_detach)
qed

lemma thumbnailsOk_style_assign: "thumbnailsOk m \<Longrightarrow> thumbnailsOk (style_assign props m)"
  by (cases m) (simp_all add: isThumbnail_def)

lemma overlayChildren_style_assign: "overlayChildren (style_assign props m) = overlayChildren m"
  by (cases m) simp_all

lemma thumbnailsOk_overlay: "thumbnailsOk (attach overlay)"
  by code_simp

lemma isOverlay_overlay: "attached (attach overlay) \<and> isOverlay (attach overlay)"
  by code_simp

lemma thumbnailsOk_appendChild_node:
  assumes "thumbnailsOk m" and "overlayChildren m = 0"
  shows "thumbnailsOk (appendChild_node overlay m)"
proof (cases m)
  case (Text a t)
  then show ?thesis by simp
next
  case (Element a at ks)
  with assms have "filter (\<lambda>c. attached c \<and> isOverlay c) ks = []" "thumbnailsOk_list ks"
    by simp_all
  with Element show ?thesis
    by (simp add: thumbnailsOk_list_append thumbnailsOk_overlay isOverlay_overlay)
qed

lemma thumbnailsOk_set_textContent:
  assumes "thumbnailsOk doc"
  shows "thumbnailsOk (set_textContent t s doc)"
proof (cases "nodeAt doc t")
  case None
  with assms show ?thesis by (simp add: set_textContent_def modifyAt_invalid)
next
  case (Some m)
  from assms Some have "thumbnailsOk m" by (rule thumbnailsOk_nodeAt)
  then have "thumbnailsOk (set_textContent_node s m)"
    by (rule thumbnailsOk_set_textContent_node)
  with Some assms show ?thesis
    unfolding set_textContent_def
    by (intro thumbnailsOk_modifyAt [where m = m]) (simp_all add: set_textContent_node_root)
qed

text \<open>When no overlay is found under an element, none of its children is an overlay.\<close>

lemma overlayChildren_none:
  assumes none: "querySelector doc t overlaySelector = None" and m: "nodeAt doc t = Some m"
  shows "overlayChildren m = 0"
proof (cases m)
  case (Text a s)
  then show ?thesis by simp
next
  case (Element a at ks)
  have "\<not> (attached c \<and> isOverlay c)" if "c \<in> set ks" for c
  proof
    assume c: "attached c \<and> isOverlay c"
    from that obtain k where k: "k < length ks" "ks ! k = c" by (auto simp: in_set_conv_nth)
    with c Element have l: "linkedPath m [k]" by simp
    from k Element m have "nodeAt doc (t @ [k]) = Some c" by (simp add: nodeAt_append)
    with c have "\<exists>n. nodeAt doc (t @ [k]) = Some n \<and> matches_simple n (ByClass ''spoiler-overlay'')"
      by (simp add: isOverlay_def)
    then have "matches doc (t @ [k]) (Simple (ByClass ''spoiler-overlay''))"
      unfolding simple_matches .
    then have "some (matches doc (t @ [k])) overlaySelector"
      by (simp add: overlaySelector_def)
    with none m l show False unfolding querySelector_None_iff by blast
  qed
  then have "filter (\<lambda>c. attached c \<and> isOverlay c) ks = []"
    by (simp add: filter_empty_conv)
  with Element show ?thesis by simp
qed

lemma thumbnailsOk_insertOverlay:
  assumes ok: "thumbnailsOk doc" and none: "querySelector doc t overlaySelector = None"
  shows "thumbnailsOk (insertOverlay t doc)"
proof (cases "nodeAt doc t")
  case None
  then have "insertOverlay t doc = doc"
    by (simp add: insertOverlay_def appendChild_def modifyAt_invalid Let_def)
  with ok show ?thesis by simp
next
  case (Some m)
  let ?doc1 = "if computedPosition doc t = ''static''
     then modifyAt t (style_assign [(''position'', ''relative'')]) doc else doc"
  from ok Some have okm: "thumbnailsOk m" by (rule thumbnailsOk_nodeAt)
  from none Some have zero: "overlayChildren m = 0" by (rule overlayChildren_none)
  obtain m1 where m1: "nodeAt ?doc1 t = Some m1" "thumbnailsOk m1" "overlayChildren m1 = 0"
  proof (cases "computedPosition doc t = ''static''")
    case True
    with Some okm zero that [of "style_assign [(''position'', ''relative'')] m"]
    show ?thesis
      by (simp add: nodeAt_modifyAt_same thumbnailsOk_style_assign overlayChildren_style_assign)
  next
    case False
    with Some okm zero that [of m] show ?thesis by simp
  qed
  have ok1: "thumbnailsOk ?doc1"
  proof (cases "computedPosition doc t = ''static''")
    case True
    have "thumbnailsOk (modifyAt t (style_assign [(''position'', ''relative'')]) doc)"
      using Some ok okm
      by (intro thumbnailsOk_modifyAt [where m = m])
        (simp_all add: style_assign_root thumbnailsOk_style_assign)
    with True show ?thesis by simp
  next
    case False
    with ok show ?thesis by simp
  qed
  from m1 have "thumbnailsOk (appendChild_node overlay m1)"
    by (intro thumbnailsOk_appendChild_node)
  with m1(1) ok1 have "thumbnailsOk (modifyAt t (appendChild_node overlay) ?doc1)"
    by (intro thumbnailsOk_modifyAt [where m = m1]) (simp_all add: appendChild_node_root)
  then show ?thesis by (simp add: insertOverlay_def appendChild_def Let_def)
qed

lemma thumbnailsOk_addOverlay: "thumbnailsOk doc \<Longrightarrow> thumbnailsOk (addOverlay t doc)"
  by (simp add: addOverlay_def thumbnailsOk_insertOverlay)

lemma thumbnailsOk_processVideoElement:
  "thumbnailsOk (dom s) \<Longrightarrow>
     thumbnailsOk (dom (snd (processVideoElement spoilerKeywords videoElement s)))"
  by (simp add: processVideoElement_def Let_def emit_def thumbnailsOk_addOverlay
      thumbnailsOk_set_textContent split: option.split)

lemma thumbnailsOk_fold_elements:
  "thumbnailsOk (dom s) \<Longrightarrow>
     thumbnailsOk (dom (fold (\<lambda>videoElement s2.
       snd (processVideoElement spoilerKeywords videoElement s2)) videoElements s))"
  by (induction videoElements arbitrary: s) (simp_all add: thumbnailsOk_processVideoElement)

lemma thumbnailsOk_fold_selectors:
  "thumbnailsOk (dom s) \<Longrightarrow>
     thumbnailsOk (dom (fold (\<lambda>selector s1.
       fold (\<lambda>videoElement s2. snd (processVideoElement spoilerKeywords videoElement s2))
         (document_querySelectorAll (dom s1) [Simple (ByTag selector)]) s1) selectors s))"
  by (induction selectors arbitrary: s) (simp_all add: thumbnailsOk_fold_elements)

lemma thumbnailsOk_processAllVideoElements:
  "thumbnailsOk (dom s) \<Longrightarrow> thumbnailsOk (dom (processAllVideoElements spoilerKeywords s))"
  by (simp add: processAllVideoElements_def thumbnailsOk_fold_selectors emit_def)

lemma thumbnailsOk_run:
  "thumbnailsOk (dom s) \<Longrightarrow> thumbnailsOk (dom (run spoilerKeywords calls s))"
  by (induction spoilerKeywords calls s rule: run.induct)
    (simp_all add: thumbnailsOk_processVideoElement thumbnailsOk_processAllVideoElements)

lemma overlayNodes_addOverlay: "overlayNodes (addOverlay t doc) \<le> overlayNodes doc + 1"
  using overlayNodes_insertOverlay [of t doc] by (simp add: addOverlay_def)

lemma overlayNodes_processVideoElement:
  "overlayNodes (dom (snd (processVideoElement spoilerKeywords videoElement s)))
     \<le> overlayNodes (dom s) + 1"
proof -
  have "overlayNodes (addOverlay t (set_textContent u sentinel (dom s)))
      \<le> overlayNodes (dom s) + 1" for t u
    using overlayNodes_addOverlay [of t "set_textContent u sentinel (dom s)"]
    by (simp add: overlayNodes_set_textContent)
  then show ?thesis
    by (simp add: processVideoElement_def Let_def emit_def overlayNodes_set_textContent
        split: option.split)
qed

lemma thumbnail_found:
  assumes "querySelector doc item thumbnailSelector = Some t" and "nodeAt doc t = Some m"
  shows "isThumbnail m"
proof -
  from querySelector_SomeD [OF assms(1)] have "some (matches doc t) thumbnailSelector"
    by blast
  with assms(2) show ?thesis
    by (simp add: thumbnailSelector_def isThumbnail_def)
qed

lemma thumbnailsOk_overlayChildren:
  assumes "thumbnailsOk m" and "isThumbnail m"
  shows "overlayChildren m \<le> 1"
  using assms by (cases m) auto

section \<open>The claims\<close>

text \<open>
  Claim C1 (idempotence of annotation). When the title of an item reads the sentinel and an
  overlay is found under the item, \<open>processVideoElement\<close> takes the early return and gives
  back the state it received: the document is the same and no event is added, so
  \<open>containsSpoiler\<close> is not called, for every keyword list.
\<close>

theorem processVideoElement_already_masked:
  assumes "querySelector (dom s) videoElement titleSelector = Some titleElement"
    and "textContent (dom s) titleElement = sentinel"
    and "querySelector (dom s) videoElement overlaySelector \<noteq> None"
  shows "processVideoElement spoilerKeywords videoElement s = (SkippedAlreadyMasked, s)"
  using assms by (simp add: processVideoElement_def sentinel_def)

theorem processVideoElement_already_masked_witness:
  "fst (processVideoElement [''finale''] [0] (start (body [videoCard ''Season Finale Recap''])))
     = Masked
   \<and> querySelector (dom (snd (processVideoElement [''finale''] [0]
         (start (body [videoCard ''Season Finale Recap''])))))
        [0] titleSelector = Some [0, 1]
   \<and> textContent (dom (snd (processVideoElement [''finale''] [0]
         (start (body [videoCard ''Season Finale Recap''])))))
        [0, 1] = sentinel
   \<and> querySelector (dom (snd (processVideoElement [''finale''] [0]
         (start (body [videoCard ''Season Finale Recap''])))))
        [0] overlaySelector = Some [0, 0, 1]
   \<and> processVideoElement [''finale''] [0]
         (snd (processVideoElement [''finale''] [0]
            (start (body [videoCard ''Season Finale Recap'']))))
       = (SkippedAlreadyMasked,
          snd (processVideoElement [''finale''] [0]
            (start (body [videoCard ''Season Finale Recap'']))))"
proof -
  let ?s1 = "snd (processVideoElement [''finale''] [0]
     (start (body [videoCard ''Season Finale Recap''])))"
  have m: "fst (processVideoElement [''finale''] [0]
      (start (body [videoCard ''Season Finale Recap'']))) = Masked"
    by code_simp
  have t: "querySelector (dom ?s1) [0] titleSelector = Some [0, 1]"
    by code_simp
  have x: "textContent (dom ?s1) [0, 1] = sentinel"
    by code_simp
  have o: "querySelector (dom ?s1) [0] overlaySelector = Some [0, 0, 1]"
    by code_simp
  then have o': "querySelector (dom ?s1) [0] overlaySelector \<noteq> None"
    by simp
  from m t x o processVideoElement_already_masked [OF t x o', of "[''finale'']"]
  show ?thesis by blast
qed



text \<open>
  Claim C3 (title-only short-circuit), as stated, fails: the early return needs both the
  sentinel title and an overlay. On a card without thumbnail whose title reads the sentinel,
  \<open>containsSpoiler\<close> is called on the sentinel text.
\<close>

theorem title_only_short_circuit_counterexample:
  "textContent (body [bareCard ''Spoiler'']) [0, 0] = sentinel
   \<and> querySelector (body [bareCard ''Spoiler'']) [0] overlaySelector = None
   \<and> processVideoElement [''finale''] [0] (start (body [bareCard ''Spoiler'']))
       = (SkippedNoMatch,
          \<lparr>dom = body [bareCard ''Spoiler''], events = [Call_containsSpoiler ''Spoiler'']\<rparr>)"
  by code_simp

text \<open>
  Claim C3, amended. When the title reads the sentinel and no overlay is found under the
  item, the early return is not taken: \<open>containsSpoiler\<close> is called once, on the sentinel
  text. When it rejects the sentinel, the outcome is \<open>SkippedNoMatch\<close> and the document is
  unchanged.
\<close>

theorem processVideoElement_title_only:
  assumes "querySelector (dom s) videoElement titleSelector = Some titleElement"
    and "textContent (dom s) titleElement = sentinel"
    and "querySelector (dom s) videoElement overlaySelector = None"
  shows "fst (processVideoElement spoilerKeywords videoElement s) \<noteq> SkippedAlreadyMasked
    \<and> matcherCalls (events (snd (processVideoElement spoilerKeywords videoElement s)))
        = matcherCalls (events s) @ [sentinel]
    \<and> (\<not> containsSpoiler spoilerKeywords sentinel \<longrightarrow>
         processVideoElement spoilerKeywords videoElement s
           = (SkippedNoMatch, emit (Call_containsSpoiler sentinel) s))"
  using assms
  by (simp add: processVideoElement_def sentinel_def emit_def Let_def matcherCalls_append
      split: option.split)

theorem processVideoElement_title_only_witness:
  "querySelector (dom (start (body [bareCard ''Spoiler'']))) [0] titleSelector = Some [0, 0]
   \<and> textContent (dom (start (body [bareCard ''Spoiler'']))) [0, 0] = sentinel
   \<and> querySelector (dom (start (body [bareCard ''Spoiler'']))) [0] overlaySelector = None
   \<and> \<not> containsSpoiler [''finale''] sentinel
   \<and> matcherCalls (events (snd (processVideoElement [''finale''] [0]
         (start (body [bareCard ''Spoiler''])))))
       = matcherCalls (events (start (body [bareCard ''Spoiler'']))) @ [sentinel]
   \<and> processVideoElement [''finale''] [0] (start (body [bareCard ''Spoiler'']))
       = (SkippedNoMatch, emit (Call_containsSpoiler sentinel) (start (body [bareCard ''Spoiler''])))"
proof -
  have t: "querySelector (dom (start (body [bareCard ''Spoiler'']))) [0] titleSelector
      = Some [0, 0]"
    by code_simp
  have x: "textContent (dom (start (body [bareCard ''Spoiler'']))) [0, 0] = sentinel"
    by code_simp
  have o: "querySelector (dom (start (body [bareCard ''Spoiler'']))) [0] overlaySelector = None"
    by code_simp
  have m: "\<not> containsSpoiler [''finale''] sentinel"
    by code_simp
  note r = processVideoElement_title_only [OF t x o, of "[''finale'']"]
  from r have c: "matcherCalls (events (snd (processVideoElement [''finale''] [0]
         (start (body [bareCard ''Spoiler''])))))
       = matcherCalls (events (start (body [bareCard ''Spoiler'']))) @ [sentinel]"
    by blast
  from r m have u: "processVideoElement [''finale''] [0] (start (body [bareCard ''Spoiler'']))
       = (SkippedNoMatch, emit (Call_containsSpoiler sentinel) (start (body [bareCard ''Spoiler''])))"
    by blast
  from t x o m c u show ?thesis by blast
qed

text \<open>
  Claim C4 (no-title skip), as stated, fails on a whitespace-only title: the source tests
  the title text for truthiness only, and a string of blanks is truthy. The text is passed
  to \<open>containsSpoiler\<close>; with a keyword made of a blank the title is even overwritten.
\<close>

theorem whitespace_title_counterexample:
  "querySelector (body [bareCard ''  '']) [0] titleSelector = Some [0, 0]
   \<and> textContent (body [bareCard ''  '']) [0, 0] = ''  ''
   \<and> processVideoElement [''finale''] [0] (start (body [bareCard ''  '']))
       = (SkippedNoMatch,
          \<lparr>dom = body [bareCard ''  ''], events = [Call_containsSpoiler ''  '']\<rparr>)
   \<and> fst (processVideoElement ['' ''] [0] (start (body [bareCard ''  '']))) = Masked
   \<and> textContent (dom (snd (processVideoElement ['' ''] [0] (start (body [bareCard ''  ''])))))
        [0, 0] = ''Spoiler''"
  by code_simp

text \<open>
  Claim C4, amended. When no title element is found under the item, or the text of the
  title element is empty, \<open>processVideoElement\<close> gives back the state it received with the
  outcome \<open>SkippedNoTitle\<close>: nothing is changed and \<open>containsSpoiler\<close> is not called.
\<close>

theorem processVideoElement_no_title:
  assumes "querySelector (dom s) videoElement titleSelector = None
           \<or> (\<exists>titleElement. querySelector (dom s) videoElement titleSelector = Some titleElement
                \<and> textContent (dom s) titleElement = [])"
  shows "processVideoElement spoilerKeywords videoElement s = (SkippedNoTitle, s)"
  using assms by (auto simp: processVideoElement_def)

theorem processVideoElement_no_title_witness:
  "querySelector (dom (start (body [bareCard []]))) [0] titleSelector = Some [0, 0]
   \<and> textContent (dom (start (body [bareCard []]))) [0, 0] = []
   \<and> processVideoElement [''finale''] [0] (start (body [bareCard []]))
       = (SkippedNoTitle, start (body [bareCard []]))
   \<and> querySelector (dom (start (body [elem ''ytd-video-renderer'' [] [] []]))) [0] titleSelector = None
   \<and> processVideoElement [''finale''] [0] (start (body [elem ''ytd-video-renderer'' [] [] []]))
       = (SkippedNoTitle, start (body [elem ''ytd-video-renderer'' [] [] []]))"
proof -
  have t: "querySelector (dom (start (body [bareCard []]))) [0] titleSelector = Some [0, 0]"
    by code_simp
  have x: "textContent (dom (start (body [bareCard []]))) [0, 0] = []"
    by code_simp
  have n: "querySelector (dom (start (body [elem ''ytd-video-renderer'' [] [] []]))) [0]
      titleSelector = None"
    by code_simp
  from t x have 1: "processVideoElement [''finale''] [0] (start (body [bareCard []]))
       = (SkippedNoTitle, start (body [bareCard []]))"
    by (intro processVideoElement_no_title) simp
  from n have 2: "processVideoElement [''finale''] [0]
        (start (body [elem ''ytd-video-renderer'' [] [] []]))
       = (SkippedNoTitle, start (body [elem ''ytd-video-renderer'' [] [] []]))"
    by (intro processVideoElement_no_title) simp
  from t x n 1 2 show ?thesis by simp
qed

text \<open>
  Claim C5 (partial-masking tolerance). Let the title element be found with a non-empty text
  that \<open>containsSpoiler\<close> accepts, the item not be in the masked state (the title is not the
  sentinel, or no overlay is found under the item), and no thumbnail container be found
  under the item. Then the outcome is \<open>Masked\<close>; the document is the one received with the
  sentinel assigned to the title's \<open>textContent\<close>, so the title reads the sentinel and the
  number of overlay elements is the same; the events added are the call of
  \<open>containsSpoiler\<close> and the log line. The function has a result on every input: there is
  no failing path in it.
\<close>

theorem processVideoElement_no_thumbnail:
  assumes found: "querySelector (dom s) videoElement titleSelector = Some titleElement"
    and nonempty: "textContent (dom s) titleElement \<noteq> []"
    and unmasked: "textContent (dom s) titleElement \<noteq> sentinel
                   \<or> querySelector (dom s) videoElement overlaySelector = None"
    and accepted: "containsSpoiler spoilerKeywords (textContent (dom s) titleElement)"
    and nothumb: "querySelector (dom s) videoElement thumbnailSelector = None"
  shows "processVideoElement spoilerKeywords videoElement s =
           (Masked,
            (emit (ConsoleLog (detectedMessage (textContent (dom s) titleElement)))
               (emit (Call_containsSpoiler (textContent (dom s) titleElement)) s))
            \<lparr>dom := set_textContent titleElement sentinel (dom s)\<rparr>)
       \<and> textContent (dom (snd (processVideoElement spoilerKeywords videoElement s))) titleElement
           = sentinel
       \<and> overlayNodes (dom (snd (processVideoElement spoilerKeywords videoElement s)))
           = overlayNodes (dom s)"
proof -
  from querySelector_SomeD [OF found] obtain r where r: "titleElement = videoElement @ r"
    by blast
  from nothumb have none:
    "querySelector (set_textContent titleElement sentinel (dom s)) videoElement thumbnailSelector
       = None"
    unfolding r by (rule querySelector_None_set_textContent) (rule simple_thumbnailSelector)
  from found nonempty unmasked accepted none
  have res: "processVideoElement spoilerKeywords videoElement s =
           (Masked,
            (emit (ConsoleLog (detectedMessage (textContent (dom s) titleElement)))
               (emit (Call_containsSpoiler (textContent (dom s) titleElement)) s))
            \<lparr>dom := set_textContent titleElement sentinel (dom s)\<rparr>)"
    by (auto simp: processVideoElement_def Let_def emit_def)
  from querySelector_Element [OF found] obtain a at ks
    where "nodeAt (dom s) titleElement = Some (Element a at ks)" by blast
  then have "textContent (set_textContent titleElement sentinel (dom s)) titleElement = sentinel"
    by (rule textContent_set_textContent)
  with res show ?thesis by (simp add: overlayNodes_set_textContent)
qed

theorem processVideoElement_no_thumbnail_witness:
  "querySelector (dom (start (body [bareCard ''Season Finale Recap'']))) [0] titleSelector
     = Some [0, 0]
   \<and> textContent (dom (start (body [bareCard ''Season Finale Recap'']))) [0, 0]
       = ''Season Finale Recap''
   \<and> ''Season Finale Recap'' \<noteq> sentinel
   \<and> containsSpoiler [''finale''] ''Season Finale Recap''
   \<and> querySelector (dom (start (body [bareCard ''Season Finale Recap'']))) [0] thumbnailSelector
       = None
   \<and> fst (processVideoElement [''finale''] [0] (start (body [bareCard ''Season Finale Recap''])))
       = Masked
   \<and> textContent (dom (snd (processVideoElement [''finale''] [0]
         (start (body [bareCard ''Season Finale Recap''])))))  [0, 0] = sentinel
   \<and> overlayNodes (dom (snd (processVideoElement [''finale''] [0]
         (start (body [bareCard ''Season Finale Recap''])))))
       = overlayNodes (dom (start (body [bareCard ''Season Finale Recap''])))"
proof -
  let ?s = "start (body [bareCard ''Season Finale Recap''])"
  have t: "querySelector (dom ?s) [0] titleSelector = Some [0, 0]"
    by code_simp
  have x: "textContent (dom ?s) [0, 0] = ''Season Finale Recap''"
    by code_simp
  have e: "textContent (dom ?s) [0, 0] \<noteq> []"
    by code_simp
  have n: "''Season Finale Recap'' \<noteq> sentinel"
    by code_simp
  have u: "textContent (dom ?s) [0, 0] \<noteq> sentinel
       \<or> querySelector (dom ?s) [0] overlaySelector = None"
    by code_simp
  have m: "containsSpoiler [''finale''] ''Season Finale Recap''"
    by code_simp
  have m': "containsSpoiler [''finale''] (textContent (dom ?s) [0, 0])"
    by code_simp
  have h: "querySelector (dom ?s) [0] thumbnailSelector = None"
    by code_simp
  note r = processVideoElement_no_thumbnail [OF t e u m' h]
  from r have 1: "fst (processVideoElement [''finale''] [0] ?s) = Masked"
    by simp
  from r have 2: "textContent (dom (snd (processVideoElement [''finale''] [0] ?s))) [0, 0]
      = sentinel"
    by blast
  from r have 3: "overlayNodes (dom (snd (processVideoElement [''finale''] [0] ?s)))
      = overlayNodes (dom ?s)"
    by blast
  from t x n m h 1 2 3 show ?thesis by blast
qed

text \<open>
  Claim C6 (at most one overlay). One call of \<open>processVideoElement\<close> adds at most one
  overlay element to the structure, and none under a thumbnail container under which an
  overlay is found. When every thumbnail element has at most one overlay among its children,
  this remains so after any sequence of calls of \<open>processVideoElement\<close> and
  \<open>processAllVideoElements\<close>; in particular the thumbnail container found for any item then
  has at most one overlay child.
\<close>

theorem at_most_one_overlay:
  "overlayNodes (dom (snd (processVideoElement spoilerKeywords videoElement s)))
     \<le> overlayNodes (dom s) + 1
   \<and> (querySelector doc thumbnailContainer overlaySelector \<noteq> None \<longrightarrow>
        addOverlay thumbnailContainer doc = doc)
   \<and> (thumbnailsOk (dom s) \<longrightarrow>
        thumbnailsOk (dom (run spoilerKeywords calls s))
        \<and> (\<forall>item found m.
             querySelector (dom (run spoilerKeywords calls s)) item thumbnailSelector = Some found
             \<longrightarrow> nodeAt (dom (run spoilerKeywords calls s)) found = Some m
             \<longrightarrow> overlayChildren m \<le> 1))"
proof (intro conjI impI allI)
  show "overlayNodes (dom (snd (processVideoElement spoilerKeywords videoElement s)))
     \<le> overlayNodes (dom s) + 1"
    by (rule overlayNodes_processVideoElement)
next
  assume "querySelector doc thumbnailContainer overlaySelector \<noteq> None"
  then show "addOverlay thumbnailContainer doc = doc"
    by (auto simp: addOverlay_def)
next
  assume "thumbnailsOk (dom s)"
  then show "thumbnailsOk (dom (run spoilerKeywords calls s))"
    by (rule thumbnailsOk_run)
next
  fix item found m
  assume ok: "thumbnailsOk (dom s)"
    and q: "querySelector (dom (run spoilerKeywords calls s)) item thumbnailSelector = Some found"
    and m: "nodeAt (dom (run spoilerKeywords calls s)) found = Some m"
  from ok have "thumbnailsOk (dom (run spoilerKeywords calls s))"
    by (rule thumbnailsOk_run)
  then have "thumbnailsOk m" using m by (rule thumbnailsOk_nodeAt)
  moreover from q m have "isThumbnail m" by (rule thumbnail_found)
  ultimately show "overlayChildren m \<le> 1" by (rule thumbnailsOk_overlayChildren)
qed

theorem at_most_one_overlay_witness:
  "thumbnailsOk (dom (start (body [videoCard ''Season Finale Recap''])))
   \<and> overlayNodes (dom (start (body [videoCard ''Season Finale Recap'']))) = 0
   \<and> overlayNodes (dom (snd (processVideoElement [''finale''] [0]
        (start (body [videoCard ''Season Finale Recap''])))))
       \<le> overlayNodes (dom (start (body [videoCard ''Season Finale Recap'']))) + 1
   \<and> querySelector (dom (run [''finale''] [ScanAll, Annotate [0], ScanAll]
        (start (body [videoCard ''Season Finale Recap''])))) [0] thumbnailSelector = Some [0, 0]
   \<and> (\<exists>m. nodeAt (dom (run [''finale''] [ScanAll, Annotate [0], ScanAll]
              (start (body [videoCard ''Season Finale Recap''])))) [0, 0] = Some m
          \<and> overlayChildren m \<le> 1)
   \<and> map_option overlayChildren
        (nodeAt (dom (run [''finale''] [ScanAll, Annotate [0], ScanAll]
           (start (body [videoCard ''Season Finale Recap''])))) [0, 0]) = Some 1
   \<and> textContent (dom (run [''finale''] [ScanAll, Annotate [0], ScanAll]
        (start (body [videoCard ''Season Finale Recap''])))) [0, 1] = sentinel"
proof -
  let ?s = "start (body [videoCard ''Season Finale Recap''])"
  let ?r = "run [''finale''] [ScanAll, Annotate [0], ScanAll] ?s"
  have ok: "thumbnailsOk (dom ?s)"
    by code_simp
  have z: "overlayNodes (dom ?s) = 0"
    by code_simp
  have q: "querySelector (dom ?r) [0] thumbnailSelector = Some [0, 0]"
    by code_simp
  have c: "map_option overlayChildren (nodeAt (dom ?r) [0, 0]) = Some 1"
    by code_simp
  have x: "textContent (dom ?r) [0, 1] = sentinel"
    by code_simp
  from c obtain m where m: "nodeAt (dom ?r) [0, 0] = Some m"
    by blast
  note th = at_most_one_overlay [of "[''finale'']" "[0]" ?s "dom ?s" "[0, 0]"
      "[ScanAll, Annotate [0], ScanAll]"]
  from th have 1: "overlayNodes (dom (snd (processVideoElement [''finale''] [0] ?s)))
      \<le> overlayNodes (dom ?s) + 1"
    by blast
  from th ok q m have "overlayChildren m \<le> 1"
    by blast
  with m have 2: "\<exists>m. nodeAt (dom ?r) [0, 0] = Some m \<and> overlayChildren m \<le> 1"
    by blast
  from ok z 1 q 2 c x show ?thesis by blast
qed

text \<open>
  Claim C7 (no-match frame condition). When the title element is found, its text is not
  empty and not the sentinel, and \<open>containsSpoiler\<close> rejects it, the outcome is
  \<open>SkippedNoMatch\<close> and the document is the one received; the only event added is the call
  of \<open>containsSpoiler\<close> on the title text. As the document is unchanged, the same holds on
  the next call: the item is matched again on every pass.
\<close>

theorem processVideoElement_no_match:
  assumes "querySelector (dom s) videoElement titleSelector = Some titleElement"
    and "textContent (dom s) titleElement \<noteq> []"
    and "textContent (dom s) titleElement \<noteq> sentinel"
    and "\<not> containsSpoiler spoilerKeywords (textContent (dom s) titleElement)"
  shows "processVideoElement spoilerKeywords videoElement s
           = (SkippedNoMatch, emit (Call_containsSpoiler (textContent (dom s) titleElement)) s)
    \<and> dom (snd (processVideoElement spoilerKeywords videoElement s)) = dom s
    \<and> fst (processVideoElement spoilerKeywords videoElement
             (snd (processVideoElement spoilerKeywords videoElement s))) = SkippedNoMatch"
  using assms by (simp add: processVideoElement_def emit_def Let_def)

theorem processVideoElement_no_match_witness:
  "querySelector (dom (start (body [videoCard ''Cooking pasta'']))) [0] titleSelector = Some [0, 1]
   \<and> textContent (dom (start (body [videoCard ''Cooking pasta'']))) [0, 1] = ''Cooking pasta''
   \<and> ''Cooking pasta'' \<noteq> sentinel
   \<and> \<not> containsSpoiler [''finale''] ''Cooking pasta''
   \<and> processVideoElement [''finale''] [0] (start (body [videoCard ''Cooking pasta'']))
       = (SkippedNoMatch,
          \<lparr>dom = body [videoCard ''Cooking pasta''],
           events = [Call_containsSpoiler ''Cooking pasta'']\<rparr>)"
proof -
  have t: "querySelector (dom (start (body [videoCard ''Cooking pasta'']))) [0] titleSelector
      = Some [0, 1]"
    by code_simp
  have x: "textContent (dom (start (body [videoCard ''Cooking pasta'']))) [0, 1]
      = ''Cooking pasta''"
    by code_simp
  have e: "textContent (dom (start (body [videoCard ''Cooking pasta'']))) [0, 1] \<noteq> []"
    by code_simp
  have n: "textContent (dom (start (body [videoCard ''Cooking pasta'']))) [0, 1] \<noteq> sentinel"
    by code_simp
  have m: "\<not> containsSpoiler [''finale'']
      (textContent (dom (start (body [videoCard ''Cooking pasta'']))) [0, 1])"
    by code_simp
  from processVideoElement_no_match [OF t e n m]
  have "processVideoElement [''finale''] [0] (start (body [videoCard ''Cooking pasta'']))
      = (SkippedNoMatch,
         emit (Call_containsSpoiler
            (textContent (dom (start (body [videoCard ''Cooking pasta'']))) [0, 1]))
           (start (body [videoCard ''Cooking pasta''])))"
    by blast
  with t x n m show ?thesis by (simp add: emit_def start_def)
qed

text \<open>
  Claim C8 (batch-coalesced triggering). On a batch in which some record has an added node,
  the observer's callback is one run of \<open>processAllVideoElements\<close> (after its log line),
  and the number of entries into \<open>processAllVideoElements\<close> grows by exactly one, however
  many nodes were added. On a batch without added nodes the callback leaves the state as it
  is: \<open>processAllVideoElements\<close> is not entered.
\<close>

theorem observerCallback_one_scan:
  "(if \<exists>mutation \<in> set mutations. addedNodes mutation \<noteq> []
    then observerCallback spoilerKeywords mutations s
           = processAllVideoElements spoilerKeywords
               (emit (ConsoleLog ''New content added. Re-processing all videos...'') s)
         \<and> scanCalls (events (observerCallback spoilerKeywords mutations s))
             = scanCalls (events s) + 1
    else observerCallback spoilerKeywords mutations s = s)"
  unfolding observerCallback_def Let_def newContentAdded_fold
  by (simp add: scanCalls_processAllVideoElements emit_def scanCalls_append)

theorem observerCallback_one_scan_witness:
  "length (concat (map addedNodes addedBatch)) = 5
   \<and> scanCalls (events (observerCallback [''finale''] addedBatch
        (start (body [videoCard ''Season Finale Recap''])))) = 1
   \<and> concat (map addedNodes removedBatch) = []
   \<and> observerCallback [''finale''] removedBatch (start (body [videoCard ''Season Finale Recap'']))
       = start (body [videoCard ''Season Finale Recap''])"
proof -
  let ?s = "start (body [videoCard ''Season Finale Recap''])"
  have a: "\<exists>mutation \<in> set addedBatch. addedNodes mutation \<noteq> []"
    by (simp add: addedBatch_def)
  have r: "\<not> (\<exists>mutation \<in> set removedBatch. addedNodes mutation \<noteq> [])"
    by (simp add: removedBatch_def)
  have 5: "length (concat (map addedNodes addedBatch)) = 5"
    by (simp add: addedBatch_def)
  have 0: "concat (map addedNodes removedBatch) = []"
    by (simp add: removedBatch_def)
  note added = observerCallback_one_scan [of addedBatch "[''finale'']" ?s, unfolded if_P [OF a]]
  from added have "scanCalls (events (observerCallback [''finale''] addedBatch ?s))
      = scanCalls (events ?s) + 1"
    by (rule conjunct2)
  then have 1: "scanCalls (events (observerCallback [''finale''] addedBatch ?s)) = 1"
    by (simp add: start_def)
  note removed =
    observerCallback_one_scan [of removedBatch "[''finale'']" ?s, unfolded if_not_P [OF r]]
  from removed have 2: "observerCallback [''finale''] removedBatch ?s = ?s" .
  from 5 1 0 2 show ?thesis by blast
qed

text \<open>
  Claim C9 (sentinel self-match). Let the title of an item read the sentinel, no overlay be
  found under the item, and some keyword be a case-insensitive substring of the sentinel.
  Then \<open>containsSpoiler\<close> is called on the sentinel text and accepts it, the outcome is
  \<open>Masked\<close>, the sentinel is assigned to the title again, and when a thumbnail container is
  found afterwards an overlay is inserted under it.
\<close>

theorem processVideoElement_sentinel_rematch:
  assumes found: "querySelector (dom s) videoElement titleSelector = Some titleElement"
    and reads: "textContent (dom s) titleElement = sentinel"
    and bare: "querySelector (dom s) videoElement overlaySelector = None"
    and keyword: "keyword \<in> set spoilerKeywords" "caseInsensitiveSubstring keyword sentinel"
  shows "containsSpoiler spoilerKeywords sentinel
       \<and> processVideoElement spoilerKeywords videoElement s =
           (Masked,
            (emit (ConsoleLog (detectedMessage sentinel)) (emit (Call_containsSpoiler sentinel) s))
            \<lparr>dom :=
               (case querySelector (set_textContent titleElement sentinel (dom s)) videoElement
                       thumbnailSelector of
                  None \<Rightarrow> set_textContent titleElement sentinel (dom s)
                | Some thumbnailContainer \<Rightarrow>
                    insertOverlay thumbnailContainer
                      (set_textContent titleElement sentinel (dom s)))\<rparr>)"
proof -
  let ?doc1 = "set_textContent titleElement sentinel (dom s)"
  from keyword have accepted: "containsSpoiler spoilerKeywords sentinel"
    unfolding containsSpoiler_iff by blast
  from querySelector_SomeD [OF found] obtain r where r: "titleElement = videoElement @ r"
    by blast
  from bare have none: "querySelector ?doc1 videoElement overlaySelector = None"
    unfolding r by (rule querySelector_None_set_textContent) (rule simple_overlaySelector)
  have add: "addOverlay thumbnailContainer ?doc1 = insertOverlay thumbnailContainer ?doc1"
    if "querySelector ?doc1 videoElement thumbnailSelector = Some thumbnailContainer"
    for thumbnailContainer
  proof -
    from querySelector_SomeD [OF that] obtain n q where
      "nodeAt ?doc1 videoElement = Some n" "thumbnailContainer = videoElement @ q"
      "linkedPath n q" by blast
    with none have "querySelector ?doc1 thumbnailContainer overlaySelector = None"
      by (simp add: querySelector_None_below)
    then show ?thesis by (simp add: addOverlay_def)
  qed
  have nonempty: "textContent (dom s) titleElement \<noteq> []"
    using reads by (simp add: sentinel_def)
  from found reads bare accepted nonempty add show ?thesis
    by (simp add: processVideoElement_def Let_def emit_def split: option.split)
qed

theorem processVideoElement_sentinel_rematch_witness:
  "querySelector (dom (start (body [videoCard ''Spoiler'']))) [0] titleSelector = Some [0, 1]
   \<and> textContent (dom (start (body [videoCard ''Spoiler'']))) [0, 1] = sentinel
   \<and> querySelector (dom (start (body [videoCard ''Spoiler'']))) [0] overlaySelector = None
   \<and> caseInsensitiveSubstring ''spoiler'' sentinel
   \<and> containsSpoiler [''finale'', ''spoiler''] sentinel
   \<and> fst (processVideoElement [''finale'', ''spoiler''] [0] (start (body [videoCard ''Spoiler''])))
       = Masked
   \<and> matcherCalls (events (snd (processVideoElement [''finale'', ''spoiler''] [0]
         (start (body [videoCard ''Spoiler''])))))
       = [''Spoiler'']
   \<and> querySelector (dom (snd (processVideoElement [''finale'', ''spoiler''] [0]
         (start (body [videoCard ''Spoiler''])))))
        [0] overlaySelector = Some [0, 0, 1]"
proof -
  let ?s = "start (body [videoCard ''Spoiler''])"
  have t: "querySelector (dom ?s) [0] titleSelector = Some [0, 1]"
    by code_simp
  have x: "textContent (dom ?s) [0, 1] = sentinel"
    by code_simp
  have o: "querySelector (dom ?s) [0] overlaySelector = None"
    by code_simp
  have k: "''spoiler'' \<in> set [''finale'', ''spoiler'']"
    by simp
  have "list_all2 sameLetter sentinel ''spoiler''"
    by code_simp
  moreover have "sentinel = [] @ sentinel @ []"
    by simp
  ultimately have c: "caseInsensitiveSubstring ''spoiler'' sentinel"
    unfolding caseInsensitiveSubstring_def by blast
  note r = processVideoElement_sentinel_rematch [OF t x o k c]
  from r have a: "containsSpoiler [''finale'', ''spoiler''] sentinel"
    by blast
  from r have eq: "processVideoElement [''finale'', ''spoiler''] [0] ?s =
      (Masked,
       (emit (ConsoleLog (detectedMessage sentinel)) (emit (Call_containsSpoiler sentinel) ?s))
       \<lparr>dom :=
          (case querySelector (set_textContent [0, 1] sentinel (dom ?s)) [0] thumbnailSelector of
             None \<Rightarrow> set_textContent [0, 1] sentinel (dom ?s)
           | Some thumbnailContainer \<Rightarrow>
               insertOverlay thumbnailContainer (set_textContent [0, 1] sentinel (dom ?s)))\<rparr>)"
    by blast
  have 1: "fst (processVideoElement [''finale'', ''spoiler''] [0] ?s) = Masked"
    unfolding eq by simp
  have 2: "matcherCalls (events (snd (processVideoElement [''finale'', ''spoiler''] [0] ?s)))
      = [''Spoiler'']"
    unfolding eq by code_simp
  have 3: "querySelector (dom (snd (processVideoElement [''finale'', ''spoiler''] [0] ?s)))
      [0] overlaySelector = Some [0, 0, 1]"
    unfolding eq by code_simp
  from t x o c a 1 2 3 show ?thesis by blast
qed

text \<open>
  Claim C10 (an empty keyword matches everything). When the keyword list contains the empty
  string, \<open>containsSpoiler\<close> is true on every text, the empty text included.
\<close>

theorem containsSpoiler_empty_keyword:
  "[] \<in> set spoilerKeywords \<Longrightarrow>
     containsSpoiler spoilerKeywords text \<and> containsSpoiler spoilerKeywords []"
  by (auto simp: containsSpoiler_def some_iff toLowerCase_def includes_empty intro!: bexI [of _ "[]"])

theorem containsSpoiler_empty_keyword_witness:
  "[] \<in> set [''finale'', []]
   \<and> containsSpoiler [''finale'', []] ''Cooking pasta''
   \<and> containsSpoiler [''finale'', []] []"
  using containsSpoiler_empty_keyword [of "[''finale'', []]" "''Cooking pasta''"]
  by simp

end
